theory Spec2Isabelle
  imports Complex_Main "HOL-Library.List_Lexorder" "HOL-Library.Char_ord"
begin

section \<open>The sewage grid simplification of \<open>Sewage grid automation/main.py\<close>\<close>

text \<open>
  The program reads a pipe table and a manhole table, builds an undirected graph from the
  pipe rows with networkx, selects the manholes to display
  (\<open>identify_necessary_manholes\<close>) and filters both tables by the selection
  (\<open>main\<close>).

  The program is modelled twice. The first model takes the labels from one totally
  ordered type, as they are in a table whose two columns hold text only, or numbers only,
  with no cell missing: there \<open>sorted\<close> compares any two labels and \<open>!=\<close> is
  inequality. The second model (\<open>identify_necessary_manholes_py\<close> and the functions
  named \<open>_py\<close>) takes Python's own values, where \<open>sorted\<close> raises for text against
  a number and a missing cell is a float \<open>nan\<close>; it is the same code read without the
  typing, and agrees with the first model on the tables of one ordered type (lemmas
  \<open>chain_pass_refines\<close> and \<open>identify_refines\<close>).
\<close>

subsection \<open>The graph library, as far as the program uses it\<close>

text \<open>
  A networkx \<open>Graph\<close> keeps a dictionary of nodes and, for every node, a dictionary of
  its neighbours; both iterate in insertion order. \<open>nodes\<close> is the key order of the node
  dictionary, \<open>adj G n\<close> the key order of the neighbour dictionary of \<open>n\<close>
  (empty for a label that is not a node).
\<close>

datatype error = NetworkXError | TypeError

record 'a graph =
  nodes :: "'a list"
  adj :: "'a \<Rightarrow> 'a list"

definition empty_graph :: "'a graph" where
  "empty_graph = \<lparr>nodes = [], adj = (\<lambda>_. [])\<rparr>"

text \<open>\<open>if n not in self._node: self._adj[n] = {}; self._node[n] = {}\<close>\<close>

definition add_node :: "'a \<Rightarrow> 'a graph \<Rightarrow> 'a graph" where
  "add_node n G = (if n \<in> set (nodes G) then G else G\<lparr>nodes := nodes G @ [n]\<rparr>)"

text \<open>\<open>self._adj[u][v] = datadict\<close>: a key already present keeps its position.\<close>

definition set_adj :: "'a \<Rightarrow> 'a \<Rightarrow> 'a graph \<Rightarrow> 'a graph" where
  "set_adj u v G =
     G\<lparr>adj := (adj G)(u := (if v \<in> set (adj G u) then adj G u else adj G u @ [v]))\<rparr>"

definition add_edge :: "'a \<Rightarrow> 'a \<Rightarrow> 'a graph \<Rightarrow> 'a graph" where
  "add_edge u v G = set_adj v u (set_adj u v (add_node v (add_node u G)))"

definition add_edges_from :: "('a \<times> 'a) list \<Rightarrow> 'a graph \<Rightarrow> 'a graph" where
  "add_edges_from ebunch G = foldl (\<lambda>H (u, v). add_edge u v H) G ebunch"

definition number_of_nodes :: "'a graph \<Rightarrow> nat" where
  "number_of_nodes G = length (nodes G)"

text \<open>
  \<open>G.degree(n)\<close> is \<open>len(nbrs) + (n in nbrs)\<close>: a self-loop counts twice. The program
  asks the degree of nodes of the graph only (of the neighbours of a node, and of
  \<open>curr\<close>, which is one). For a label that is not a node the library does not return
  a number; here such a label has no neighbours and degree \<open>0\<close>.
\<close>

definition degree :: "'a graph \<Rightarrow> 'a \<Rightarrow> nat" where
  "degree G n = length (adj G n) + (if n \<in> set (adj G n) then 1 else 0)"

text \<open>\<open>G.degree()\<close>, iterated: the pairs (node, degree) in node order.\<close>

definition degree_view :: "'a graph \<Rightarrow> ('a \<times> nat) list" where
  "degree_view G = map (\<lambda>n. (n, degree G n)) (nodes G)"

text \<open>\<open>G.neighbors(n)\<close> raises for a label that is not a node.\<close>

definition neighbors :: "'a graph \<Rightarrow> 'a \<Rightarrow> error + 'a list" where
  "neighbors G n = (if n \<in> set (nodes G) then Inr (adj G n) else Inl NetworkXError)"

subsection \<open>The tables\<close>

record ('a, 'b) pipe =
  start_node :: 'a
  stop_node :: 'a
  pipe_columns :: 'b

record ('a, 'c) manhole =
  label :: 'a
  manhole_columns :: 'c

text \<open>\<open>nx.from_pandas_edgelist(df, 'Start Node', 'Stop Node')\<close>\<close>

definition from_pandas_edgelist :: "('a, 'b) pipe list \<Rightarrow> 'a graph" where
  "from_pandas_edgelist df =
     add_edges_from (zip (map start_node df) (map stop_node df)) empty_graph"

subsection \<open>\<open>identify_necessary_manholes\<close>\<close>

text \<open>
  \<open>tuple(sorted((a, b)))\<close> on labels of one ordered type; the sort is stable. What
  \<open>sorted\<close> does on text beside numbers and on \<open>nan\<close> is \<open>sorted_pair_py\<close> below.
\<close>

definition sorted_pair :: "'a::linorder \<Rightarrow> 'a \<Rightarrow> 'a \<times> 'a" where
  "sorted_pair a b = (if b < a then (b, a) else (a, b))"

text \<open>
  The state of the two nested \<open>for\<close> loops: the sets \<open>visited_chains\<close> and
  \<open>additional_mh\<close>, and a log \<open>discovered\<close> that the program does not keep: one entry
  per finished walk, holding the values of \<open>node\<close>, \<open>chain\<close> and \<open>curr\<close> at the end of
  the \<open>while\<close> loop. No branch reads the log.
\<close>

record 'a chain =
  origin :: 'a
  interior :: "'a list"
  terminal :: 'a

record 'a walk_state =
  visited_chains :: "('a \<times> 'a) set"
  additional_mh :: "'a set"
  discovered :: "'a chain list"

text \<open>
  The \<open>while\<close> loop. It returns the values of \<open>chain\<close>, \<open>prev\<close>, \<open>curr\<close> and
  \<open>visited_chains\<close> at its exit; \<open>None\<close> stands for a loop that never exits.
\<close>

partial_function (option) walk_chain ::
  "'a::linorder graph \<Rightarrow> 'a \<Rightarrow> 'a \<Rightarrow> 'a list \<Rightarrow> ('a \<times> 'a) set
     \<Rightarrow> (error + 'a list \<times> 'a \<times> 'a \<times> ('a \<times> 'a) set) option" where
  "walk_chain G prev cur chain visited =
     (if degree G cur = 2 then
        (case neighbors G cur of
           Inl e \<Rightarrow> Some (Inl e)
         | Inr nbrs \<Rightarrow>
             (case filter (\<lambda>n. n \<noteq> prev) nbrs of
                [] \<Rightarrow> Some (Inr (chain @ [cur], prev, cur,
                               insert (sorted_pair prev cur) visited))
              | next_node # _ \<Rightarrow>
                  walk_chain G cur next_node (chain @ [cur])
                    (insert (sorted_pair prev cur) visited)))
      else Some (Inr (chain, prev, cur, visited)))"

declare walk_chain.simps [code]

text \<open>\<open>for i, chain_node in enumerate(chain): if i % 4 == 0: additional_mh.add(chain_node)\<close>\<close>

definition sample_chain :: "'a list \<Rightarrow> 'a set \<Rightarrow> 'a set" where
  "sample_chain chain additional =
     fold (\<lambda>(i, chain_node) acc. if i mod 4 = 0 then insert chain_node acc else acc)
       (enumerate 0 chain) additional"

text \<open>The body of the inner \<open>for\<close> loop.\<close>

definition visit_neighbor ::
  "'a::linorder graph \<Rightarrow> 'a \<Rightarrow> 'a \<Rightarrow> 'a walk_state \<Rightarrow> (error + 'a walk_state) option" where
  "visit_neighbor G node neighbor s =
     (if degree G neighbor = 2 \<and> sorted_pair node neighbor \<notin> visited_chains s then
        (case walk_chain G node neighbor [] (visited_chains s) of
           None \<Rightarrow> None
         | Some (Inl e) \<Rightarrow> Some (Inl e)
         | Some (Inr (chain, prev, cur, visited)) \<Rightarrow>
             Some (Inr \<lparr>visited_chains = insert (sorted_pair prev cur) visited,
                        additional_mh = (if chain \<noteq> [] then sample_chain chain (additional_mh s)
                                         else additional_mh s),
                        discovered = discovered s @
                          [\<lparr>origin = node, interior = chain, terminal = cur\<rparr>]\<rparr>))
      else Some (Inr s))"

text \<open>\<open>for neighbor in G.neighbors(node)\<close>, over the neighbours still to come.\<close>

fun visit_neighbors ::
  "'a::linorder graph \<Rightarrow> 'a \<Rightarrow> 'a list \<Rightarrow> 'a walk_state \<Rightarrow> (error + 'a walk_state) option" where
  "visit_neighbors G node [] s = Some (Inr s)"
| "visit_neighbors G node (neighbor # rest) s =
     (case visit_neighbor G node neighbor s of
        None \<Rightarrow> None
      | Some (Inl e) \<Rightarrow> Some (Inl e)
      | Some (Inr s') \<Rightarrow> visit_neighbors G node rest s')"

text \<open>
  \<open>for node in necessary_mh\<close>. A Python set iterates in an order the language does not
  fix; the list is that order.
\<close>

fun visit_nodes ::
  "'a::linorder graph \<Rightarrow> 'a list \<Rightarrow> 'a walk_state \<Rightarrow> (error + 'a walk_state) option" where
  "visit_nodes G [] s = Some (Inr s)"
| "visit_nodes G (node # rest) s =
     (case neighbors G node of
        Inl e \<Rightarrow> Some (Inl e)
      | Inr nbrs \<Rightarrow>
          (case visit_neighbors G node nbrs s of
             None \<Rightarrow> None
           | Some (Inl e) \<Rightarrow> Some (Inl e)
           | Some (Inr s') \<Rightarrow> visit_nodes G rest s'))"

text \<open>\<open>{node for node, degree in G.degree() if degree != 2}\<close>, in node order.\<close>

definition critical_manholes :: "'a graph \<Rightarrow> 'a list" where
  "critical_manholes G = map fst (filter (\<lambda>(node, d). d \<noteq> 2) (degree_view G))"

definition initial_state :: "'a walk_state" where
  "initial_state = \<lparr>visited_chains = {}, additional_mh = {}, discovered = []\<rparr>"

text \<open>Step 2 of the function: both loops, from the empty sets.\<close>

definition chain_pass ::
  "'a::linorder list \<Rightarrow> 'a graph \<Rightarrow> (error + 'a walk_state) option" where
  "chain_pass order G = visit_nodes G order initial_state"

text \<open>
  The function. \<open>order\<close> is the order in which the \<open>for\<close> loop finds the elements of
  the set \<open>necessary_mh\<close>.
\<close>

definition identify_necessary_manholes ::
  "'a::linorder list \<Rightarrow> ('a, 'b) pipe list \<Rightarrow> (error + 'a set) option" where
  "identify_necessary_manholes order pipes_dataframe =
     (let G = from_pandas_edgelist pipes_dataframe in
      if number_of_nodes G = 0 then Some (Inr {})
      else
        (case chain_pass order G of
           None \<Rightarrow> None
         | Some (Inl e) \<Rightarrow> Some (Inl e)
         | Some (Inr s) \<Rightarrow> Some (Inr (set (critical_manholes G) \<union> additional_mh s))))"

text \<open>The order is one of the set: every critical manhole once, and nothing else.\<close>

definition iteration_order :: "'a list \<Rightarrow> ('a, 'b) pipe list \<Rightarrow> bool" where
  "iteration_order order df \<longleftrightarrow>
     distinct order \<and> set order = set (critical_manholes (from_pandas_edgelist df))"

subsection \<open>\<open>main\<close>: filtering the tables\<close>

text \<open>\<open>column.isin(labels)\<close>, \<open>mask1 & mask2\<close> and \<open>df[mask]\<close> of pandas.\<close>

definition isin :: "'a list \<Rightarrow> 'a set \<Rightarrow> bool list" where
  "isin column labels = map (\<lambda>x. x \<in> labels) column"

definition mask_and :: "bool list \<Rightarrow> bool list \<Rightarrow> bool list" where
  "mask_and m1 m2 = map (\<lambda>(a, b). a \<and> b) (zip m1 m2)"

definition select_rows :: "'r list \<Rightarrow> bool list \<Rightarrow> 'r list" where
  "select_rows df row_mask = map fst (filter snd (zip df row_mask))"

record ('a, 'b, 'c) saved_tables =
  simplified_mh_df :: "('a, 'c) manhole list"
  simplified_pipes_df :: "('a, 'b) pipe list"

definition main ::
  "'a::linorder list \<Rightarrow> ('a, 'b) pipe list \<Rightarrow> ('a, 'c) manhole list
     \<Rightarrow> (error + ('a, 'b, 'c) saved_tables) option" where
  "main order pipes_df mh_df =
     (case identify_necessary_manholes order pipes_df of
        None \<Rightarrow> None
      | Some (Inl e) \<Rightarrow> Some (Inl e)
      | Some (Inr necessary_mh_labels) \<Rightarrow>
          Some (Inr \<lparr>simplified_mh_df =
                       select_rows mh_df (isin (map label mh_df) necessary_mh_labels),
                     simplified_pipes_df =
                       select_rows pipes_df
                         (mask_and (isin (map start_node pipes_df) necessary_mh_labels)
                                   (isin (map stop_node pipes_df) necessary_mh_labels))\<rparr>))"

subsection \<open>The program on Python's own label values\<close>

text \<open>
  A cell of a table as pandas hands it to the program: a text, a number, or the float
  \<open>nan\<close> of a missing cell. Every missing cell is a float object of its own, and a
  dictionary or set finds a \<open>nan\<close> by its identity: \<open>NaN i\<close> is the \<open>nan\<close> object
  number \<open>i\<close>. Equality of labels is the equality of dictionary keys.
\<close>

datatype label = Str string | Num rat | NaN nat

fun is_nan :: "label \<Rightarrow> bool" where
  "is_nan (NaN _) = True"
| "is_nan _ = False"

text \<open>
  Python's \<open><\<close>: it raises for a text against a number or a \<open>nan\<close>, and is false
  whenever a \<open>nan\<close> stands on either side.
\<close>

fun py_lt :: "label \<Rightarrow> label \<Rightarrow> error + bool" where
  "py_lt (Str a) (Str b) = Inr (a < b)"
| "py_lt (Str a) _ = Inl TypeError"
| "py_lt _ (Str b) = Inl TypeError"
| "py_lt (Num a) (Num b) = Inr (a < b)"
| "py_lt _ _ = Inr False"

text \<open>Python's \<open>!=\<close>: a \<open>nan\<close> differs from every value, itself included.\<close>

fun py_ne :: "label \<Rightarrow> label \<Rightarrow> bool" where
  "py_ne (NaN _) _ = True"
| "py_ne _ (NaN _) = True"
| "py_ne a b = (a \<noteq> b)"

text \<open>
  \<open>tuple(sorted((a, b)))\<close>: the sort of two elements asks \<open>b < a\<close> once and swaps
  them when it holds.
\<close>

definition sorted_pair_py :: "label \<Rightarrow> label \<Rightarrow> error + label \<times> label" where
  "sorted_pair_py a b =
     (case py_lt b a of Inl e \<Rightarrow> Inl e | Inr swap \<Rightarrow> Inr (if swap then (b, a) else (a, b)))"

text \<open>
  The \<open>while\<close> loop of lines 35 to 41, with the comparison that
  \<open>visited_chains.add(tuple(sorted((prev, curr))))\<close> makes and may fail.
\<close>

partial_function (option) walk_chain_py ::
  "label graph \<Rightarrow> label \<Rightarrow> label \<Rightarrow> label list \<Rightarrow> (label \<times> label) set
     \<Rightarrow> (error + label list \<times> label \<times> label \<times> (label \<times> label) set) option" where
  "walk_chain_py G prev cur chain visited =
     (if degree G cur = 2 then
        (case sorted_pair_py prev cur of
           Inl e \<Rightarrow> Some (Inl e)
         | Inr edge \<Rightarrow>
             (case neighbors G cur of
                Inl e \<Rightarrow> Some (Inl e)
              | Inr nbrs \<Rightarrow>
                  (case filter (\<lambda>n. py_ne n prev) nbrs of
                     [] \<Rightarrow> Some (Inr (chain @ [cur], prev, cur, insert edge visited))
                   | next_node # _ \<Rightarrow>
                       walk_chain_py G cur next_node (chain @ [cur]) (insert edge visited))))
      else Some (Inr (chain, prev, cur, visited)))"

declare walk_chain_py.simps [code]

text \<open>
  The body of the inner \<open>for\<close> loop: \<open>and\<close> evaluates the sorted pair only for a
  neighbour of degree 2; line 42 sorts \<open>prev\<close> and \<open>curr\<close> once more after the loop.
\<close>

definition visit_neighbor_py ::
  "label graph \<Rightarrow> label \<Rightarrow> label \<Rightarrow> label walk_state \<Rightarrow> (error + label walk_state) option" where
  "visit_neighbor_py G node neighbor s =
     (if degree G neighbor = 2 then
        (case sorted_pair_py node neighbor of
           Inl e \<Rightarrow> Some (Inl e)
         | Inr edge \<Rightarrow>
             if edge \<notin> visited_chains s then
               (case walk_chain_py G node neighbor [] (visited_chains s) of
                  None \<Rightarrow> None
                | Some (Inl e) \<Rightarrow> Some (Inl e)
                | Some (Inr (chain, prev, cur, visited)) \<Rightarrow>
                    (case sorted_pair_py prev cur of
                       Inl e \<Rightarrow> Some (Inl e)
                     | Inr last_edge \<Rightarrow>
                         Some (Inr \<lparr>visited_chains = insert last_edge visited,
                                    additional_mh =
                                      (if chain \<noteq> [] then sample_chain chain (additional_mh s)
                                       else additional_mh s),
                                    discovered = discovered s @
                                      [\<lparr>origin = node, interior = chain, terminal = cur\<rparr>]\<rparr>)))
             else Some (Inr s))
      else Some (Inr s))"

fun visit_neighbors_py ::
  "label graph \<Rightarrow> label \<Rightarrow> label list \<Rightarrow> label walk_state \<Rightarrow> (error + label walk_state) option" where
  "visit_neighbors_py G node [] s = Some (Inr s)"
| "visit_neighbors_py G node (neighbor # rest) s =
     (case visit_neighbor_py G node neighbor s of
        None \<Rightarrow> None
      | Some (Inl e) \<Rightarrow> Some (Inl e)
      | Some (Inr s') \<Rightarrow> visit_neighbors_py G node rest s')"

fun visit_nodes_py ::
  "label graph \<Rightarrow> label list \<Rightarrow> label walk_state \<Rightarrow> (error + label walk_state) option" where
  "visit_nodes_py G [] s = Some (Inr s)"
| "visit_nodes_py G (node # rest) s =
     (case neighbors G node of
        Inl e \<Rightarrow> Some (Inl e)
      | Inr nbrs \<Rightarrow>
          (case visit_neighbors_py G node nbrs s of
             None \<Rightarrow> None
           | Some (Inl e) \<Rightarrow> Some (Inl e)
           | Some (Inr s') \<Rightarrow> visit_nodes_py G rest s'))"

definition chain_pass_py :: "label list \<Rightarrow> label graph \<Rightarrow> (error + label walk_state) option" where
  "chain_pass_py order G = visit_nodes_py G order initial_state"






text \<open>
  Reading a table of one ordered type as a table of Python values: \<open>f\<close> is \<open>Str\<close> for a
  table of text and \<open>Num\<close> for a table of numbers. On the values of such a table
  Python's \<open><\<close> and \<open>!=\<close> are the order and the inequality of the type.
\<close>

definition embeds :: "('a::linorder \<Rightarrow> label) \<Rightarrow> bool" where
  "embeds f \<longleftrightarrow>
     inj f \<and> (\<forall>a b. py_lt (f a) (f b) = Inr (a < b)) \<and> (\<forall>a b. py_ne (f a) (f b) = (a \<noteq> b))"

definition relabel :: "('a \<Rightarrow> 'l) \<Rightarrow> ('a, 'b) pipe \<Rightarrow> ('l, 'b) pipe" where
  "relabel f p =
     \<lparr>start_node = f (start_node p), stop_node = f (stop_node p), pipe_columns = pipe_columns p\<rparr>"

definition graph_rel :: "('a \<Rightarrow> 'l) \<Rightarrow> 'a graph \<Rightarrow> 'l graph \<Rightarrow> bool" where
  "graph_rel f G G' \<longleftrightarrow> nodes G' = map f (nodes G) \<and> (\<forall>x. adj G' (f x) = map f (adj G x))"

definition relabel_chain :: "('a \<Rightarrow> 'l) \<Rightarrow> 'a chain \<Rightarrow> 'l chain" where
  "relabel_chain f c =
     \<lparr>origin = f (origin c), interior = map f (interior c), terminal = f (terminal c)\<rparr>"

definition relabel_state :: "('a \<Rightarrow> 'l) \<Rightarrow> 'a walk_state \<Rightarrow> 'l walk_state" where
  "relabel_state f s =
     \<lparr>visited_chains = map_prod f f ` visited_chains s,
      additional_mh = f ` additional_mh s,
      discovered = map (relabel_chain f) (discovered s)\<rparr>"

definition relabel_walk ::
  "('a \<Rightarrow> 'l) \<Rightarrow> error + 'a list \<times> 'a \<times> 'a \<times> ('a \<times> 'a) set
     \<Rightarrow> error + 'l list \<times> 'l \<times> 'l \<times> ('l \<times> 'l) set" where
  "relabel_walk f = map_sum id (\<lambda>(c, p, q, W). (map f c, f p, f q, map_prod f f ` W))"

subsection \<open>Notions for the statements and the proofs\<close>

text \<open>
  What holds of every graph made by \<open>add_edge\<close> from the empty one: no node and no
  neighbour is listed twice, adjacency is symmetric, and the nodes are the labels with a
  neighbour.
\<close>

definition wf_graph :: "'a graph \<Rightarrow> bool" where
  "wf_graph G \<longleftrightarrow>
     distinct (nodes G) \<and> (\<forall>u. distinct (adj G u)) \<and>
     (\<forall>u v. v \<in> set (adj G u) \<longrightarrow> u \<in> set (adj G v)) \<and>
     (\<forall>u. u \<in> set (nodes G) \<longleftrightarrow> adj G u \<noteq> [])"

text \<open>
  The edges of a path, as the walk records them, and a path in the graph: each node is a
  neighbour of the one before it.
\<close>

definition path_edges :: "'a::linorder list \<Rightarrow> ('a \<times> 'a) list" where
  "path_edges xs = map (\<lambda>(a, b). sorted_pair a b) (zip xs (tl xs))"

fun is_path :: "'a graph \<Rightarrow> 'a list \<Rightarrow> bool" where
  "is_path G (x # y # r) = (y \<in> set (adj G x) \<and> is_path G (y # r))"
| "is_path G _ = True"

text \<open>
  What the \<open>while\<close> loop keeps true on a walk that left the critical manhole \<open>J\<close>:
  the chain is a path of distinct nodes of degree 2 that ends at \<open>prev\<close>, and every
  neighbour of a chain node lies on the path.
\<close>

definition walk_inv :: "'a::linorder graph \<Rightarrow> 'a \<Rightarrow> 'a \<Rightarrow> 'a \<Rightarrow> 'a list \<Rightarrow> bool" where
  "walk_inv G J prev cur chain \<longleftrightarrow>
     distinct chain \<and> cur \<notin> set chain \<and> J \<notin> set chain \<and>
     (\<forall>x\<in>set chain. degree G x = 2) \<and>
     prev = last (J # chain) \<and> prev \<in> set (adj G cur) \<and> prev \<noteq> cur \<and>
     (\<forall>x\<in>set chain. \<forall>y\<in>set (adj G x). y \<in> set (J # chain) \<or> (x = prev \<and> y = cur)) \<and>
     (\<forall>x\<in>set chain. \<forall>y\<in>set (adj G x). sorted_pair x y \<in> set (path_edges (J # chain @ [cur]))) \<and>
     is_path G (J # chain @ [cur])"

text \<open>The edges of a discovered chain, from its origin to its terminal.\<close>

definition chain_edges :: "'a::linorder chain \<Rightarrow> ('a \<times> 'a) list" where
  "chain_edges c = path_edges (origin c # interior c @ [terminal c])"

text \<open>The nodes of a chain at the positions 0, 4, 8, ...\<close>

definition sample_set :: "'a list \<Rightarrow> 'a set" where
  "sample_set xs = {xs ! i | i. i < length xs \<and> i mod 4 = 0}"

text \<open>
  A discovered chain: a path of distinct nodes of degree 2 between two nodes of another
  degree, holding every edge at its interior nodes.
\<close>

definition valid_chain :: "'a::linorder graph \<Rightarrow> 'a chain \<Rightarrow> bool" where
  "valid_chain G c \<longleftrightarrow>
     degree G (origin c) \<noteq> 2 \<and> degree G (terminal c) \<noteq> 2 \<and>
     interior c \<noteq> [] \<and> distinct (interior c) \<and>
     (\<forall>x\<in>set (interior c). degree G x = 2) \<and>
     is_path G (origin c # interior c @ [terminal c]) \<and>
     (\<forall>x\<in>set (interior c). \<forall>y\<in>set (adj G x). sorted_pair x y \<in> set (chain_edges c))"

text \<open>A set of edges that holds both edges at a node of degree 2, or neither.\<close>

definition closed_at_path_nodes :: "'a::linorder graph \<Rightarrow> ('a \<times> 'a) set \<Rightarrow> bool" where
  "closed_at_path_nodes G V \<longleftrightarrow>
     (\<forall>p x y. degree G p = 2 \<and> x \<in> set (adj G p) \<and> y \<in> set (adj G p) \<and>
        sorted_pair p x \<in> V \<longrightarrow> sorted_pair p y \<in> V)"

text \<open>No edge belongs to two chains of the list.\<close>

definition edge_disjoint :: "'a::linorder chain list \<Rightarrow> bool" where
  "edge_disjoint cs \<longleftrightarrow>
     (\<forall>i j. i < j \<and> j < length cs \<longrightarrow>
        set (chain_edges (cs ! i)) \<inter> set (chain_edges (cs ! j)) = {})"

text \<open>What the two \<open>for\<close> loops keep true of their state.\<close>

definition pass_inv :: "'a::linorder graph \<Rightarrow> 'a walk_state \<Rightarrow> bool" where
  "pass_inv G s \<longleftrightarrow>
     closed_at_path_nodes G (visited_chains s) \<and>
     visited_chains s = (\<Union>c\<in>set (discovered s). set (chain_edges c)) \<and>
     (\<forall>c\<in>set (discovered s). valid_chain G c) \<and>
     edge_disjoint (discovered s) \<and>
     additional_mh s = (\<Union>c\<in>set (discovered s). sample_set (interior c))"

text \<open>The sampled nodes of a list whose first position counts as \<open>n\<close>.\<close>

definition sample_from :: "nat \<Rightarrow> 'a list \<Rightarrow> 'a set" where
  "sample_from n xs = {xs ! i | i. i < length xs \<and> (n + i) mod 4 = 0}"

text \<open>Two states with the same two sets: they may differ in the log only.\<close>

definition same_sets :: "'a walk_state \<Rightarrow> 'a walk_state \<Rightarrow> bool" where
  "same_sets s t \<longleftrightarrow>
     visited_chains s = visited_chains t \<and> additional_mh s = additional_mh t"

subsection \<open>Example tables\<close>

text \<open>Rows without further columns.\<close>

definition pipe_row :: "'a \<Rightarrow> 'a \<Rightarrow> ('a, unit) pipe" where
  "pipe_row u v = \<lparr>start_node = u, stop_node = v, pipe_columns = ()\<rparr>"

definition manhole_row :: "'a \<Rightarrow> ('a, unit) manhole" where
  "manhole_row l = \<lparr>label = l, manhole_columns = ()\<rparr>"

text \<open>A branch: the run 1 - 2 - 3 - 4 - 5 - 6 into the junction 6 with the dead ends 7 and 8.\<close>

definition branch_pipes :: "(nat, unit) pipe list" where
  "branch_pipes = [pipe_row 1 2, pipe_row 2 3, pipe_row 3 4, pipe_row 4 5, pipe_row 5 6,
                   pipe_row 6 7, pipe_row 6 8]"


text \<open>The closed loop 1 - 2 - 3 - 1 beside the pipe 4 - 5.\<close>

definition loop_pipes :: "(nat, unit) pipe list" where
  "loop_pipes = [pipe_row 1 2, pipe_row 2 3, pipe_row 3 1, pipe_row 4 5]"

text \<open>The worked example of the specification: the linear path J1 - A - B - C - D - E - J2.\<close>

definition worked_pipes :: "(string, unit) pipe list" where
  "worked_pipes = [pipe_row ''J1'' ''A'', pipe_row ''A'' ''B'', pipe_row ''B'' ''C'',
                   pipe_row ''C'' ''D'', pipe_row ''D'' ''E'', pipe_row ''E'' ''J2'']"

text \<open>A row is malformed when an endpoint is missing.\<close>

definition well_formed_row :: "(label, 'b) pipe \<Rightarrow> bool" where
  "well_formed_row p \<longleftrightarrow> \<not> is_nan (start_node p) \<and> \<not> is_nan (stop_node p)"

text \<open>A table of numbers with two malformed rows.\<close>

definition malformed_pipes :: "(label, unit) pipe list" where
  "malformed_pipes = [pipe_row (Num 2) (NaN 0), pipe_row (Num 4) (NaN 1),
                      pipe_row (Num 2) (Num 3)]"



text \<open>A table of numbers with a missing cell: the run nan - 2 - 3.\<close>

definition number_nan_pipes :: "(label, unit) pipe list" where
  "number_nan_pipes = [pipe_row (Num 2) (NaN 0), pipe_row (Num 2) (Num 3)]"


text \<open>One pipe, and a manhole table with a manhole that no pipe touches.\<close>

definition lone_pipes :: "(nat, unit) pipe list" where
  "lone_pipes = [pipe_row 2 3]"

definition lone_manholes :: "(nat, unit) manhole list" where
  "lone_manholes = [manhole_row 2, manhole_row 3, manhole_row 4]"

subsection \<open>Facts about the graph that the program builds\<close>

lemma wf_empty_graph: "wf_graph empty_graph"
  by (simp add: wf_graph_def empty_graph_def)

lemma nodes_add_edge: "set (nodes (add_edge u v G)) = insert u (insert v (set (nodes G)))"
  by (auto simp: add_edge_def set_adj_def add_node_def)

lemma adj_add_edge:
  "set (adj (add_edge u v G) x) =
     set (adj G x) \<union> (if x = u then {v} else {}) \<union> (if x = v then {u} else {})"
  by (auto simp: add_edge_def set_adj_def add_node_def)

lemma distinct_adj_add_edge:
  "distinct (adj G x) \<Longrightarrow> distinct (adj (add_edge u v G) x)"
  by (auto simp: add_edge_def set_adj_def add_node_def)

lemma distinct_nodes_add_edge:
  "distinct (nodes G) \<Longrightarrow> distinct (nodes (add_edge u v G))"
  by (auto simp: add_edge_def set_adj_def add_node_def)

lemma wf_add_edge:
  assumes "wf_graph G"
  shows "wf_graph (add_edge u v G)"
proof -
  have ne: "adj H x \<noteq> [] \<longleftrightarrow> set (adj H x) \<noteq> {}" for H :: "'a graph" and x
    by simp
  from assms show ?thesis
    unfolding wf_graph_def ne
    by (auto simp: nodes_add_edge adj_add_edge distinct_adj_add_edge distinct_nodes_add_edge
             split: if_splits)
qed

lemma wf_foldl_add_edge:
  "wf_graph G \<Longrightarrow> wf_graph (foldl (\<lambda>H (u, v). add_edge u v H) G es)"
  by (induction es arbitrary: G) (auto simp: wf_add_edge)

lemma nodes_foldl_add_edge:
  "set (nodes (foldl (\<lambda>H (u, v). add_edge u v H) G es)) = set (nodes G) \<union> fst ` set es \<union> snd ` set es"
  by (induction es arbitrary: G) (auto simp: nodes_add_edge)

lemma wf_from_pandas_edgelist: "wf_graph (from_pandas_edgelist df)"
  by (simp add: from_pandas_edgelist_def add_edges_from_def wf_foldl_add_edge wf_empty_graph)

lemma zip_columns: "zip (map f xs) (map g xs) = map (\<lambda>x. (f x, g x)) xs"
  by (induction xs) auto

lemma nodes_from_pandas_edgelist:
  "set (nodes (from_pandas_edgelist df)) = start_node ` set df \<union> stop_node ` set df"
  by (simp add: from_pandas_edgelist_def add_edges_from_def nodes_foldl_add_edge empty_graph_def
        zip_columns image_image)

subsection \<open>The walk along a chain ends\<close>

lemma sorted_pair_commute: "sorted_pair a b = sorted_pair b a"
  by (auto simp: sorted_pair_def)

lemma sorted_pair_eq_iff:
  "sorted_pair a b = sorted_pair c d \<longleftrightarrow> (a = c \<and> b = d) \<or> (a = d \<and> b = c)"
  by (auto simp: sorted_pair_def)

lemma path_edges_endpoints:
  "sorted_pair u v \<in> set (path_edges xs) \<Longrightarrow> u \<in> set xs \<and> v \<in> set xs"
proof (induction xs)
  case Nil
  then show ?case by (simp add: path_edges_def)
next
  case (Cons x xs)
  show ?case
  proof (cases xs)
    case Nil
    with Cons.prems show ?thesis by (simp add: path_edges_def)
  next
    case (Cons y ys)
    have "path_edges (x # xs) = sorted_pair x y # path_edges xs"
      by (simp add: path_edges_def Cons)
    with Cons.prems Cons.IH Cons show ?thesis
      by (auto simp: sorted_pair_eq_iff)
  qed
qed

lemma path_edges_snoc:
  "xs \<noteq> [] \<Longrightarrow> path_edges (xs @ [a]) = path_edges xs @ [sorted_pair (last xs) a]"
  unfolding path_edges_def
  by (induction xs) (auto simp: neq_Nil_conv)

lemma is_path_snoc:
  "is_path G (xs @ [a]) \<Longrightarrow> b \<in> set (adj G a) \<Longrightarrow> is_path G (xs @ [a, b])"
  by (induction G xs rule: is_path.induct) (auto simp: neq_Nil_conv)

lemma degree_two_neighbours:
  assumes wf: "wf_graph G" and d: "degree G x = 2" and p: "p \<in> set (adj G x)" and px: "p \<noteq> x"
  shows "\<exists>q. q \<noteq> p \<and> q \<noteq> x \<and> set (adj G x) = {p, q} \<and> filter (\<lambda>n. n \<noteq> p) (adj G x) = [q]"
proof -
  have dist: "distinct (adj G x)" using wf by (simp add: wf_graph_def)
  have noloop: "x \<notin> set (adj G x)"
  proof
    assume l: "x \<in> set (adj G x)"
    with d have "length (adj G x) = 1" by (simp add: degree_def)
    then obtain a where "adj G x = [a]" by (cases "adj G x") auto
    with l p px show False by auto
  qed
  with d have "length (adj G x) = 2" by (simp add: degree_def)
  then obtain a b where ab: "adj G x = [a, b]"
    by (cases "adj G x"; cases "tl (adj G x)") auto
  with dist have "a \<noteq> b" by simp
  with ab p noloop show ?thesis by auto
qed

lemma degree_two_node: "wf_graph G \<Longrightarrow> degree G x = 2 \<Longrightarrow> x \<in> set (nodes G)"
  by (auto simp: wf_graph_def degree_def)

lemma walk_step:
  assumes wf: "wf_graph G" and J: "degree G J \<noteq> 2" and inv: "walk_inv G J prev cur chain"
    and d: "degree G cur = 2"
  shows "\<exists>q. filter (\<lambda>n. n \<noteq> prev) (adj G cur) = [q] \<and> walk_inv G J cur q (chain @ [cur])"
proof -
  from inv have p: "prev \<in> set (adj G cur)" and pc: "prev \<noteq> cur"
    and pl: "prev = last (J # chain)" and cn: "cur \<notin> set chain"
    and clo: "\<forall>x\<in>set chain. \<forall>y\<in>set (adj G x). y \<in> set (J # chain) \<or> (x = prev \<and> y = cur)"
    and clo': "\<forall>x\<in>set chain. \<forall>y\<in>set (adj G x).
                 sorted_pair x y \<in> set (path_edges (J # chain @ [cur]))"
    unfolding walk_inv_def by blast+
  from degree_two_neighbours [OF wf d p pc] obtain q where
    q: "q \<noteq> prev" "q \<noteq> cur" "set (adj G cur) = {prev, q}"
       "filter (\<lambda>n. n \<noteq> prev) (adj G cur) = [q]" by blast
  have sym: "\<And>u v. v \<in> set (adj G u) \<Longrightarrow> u \<in> set (adj G v)"
    using wf by (simp add: wf_graph_def)
  have cJ: "cur \<noteq> J" using d J by auto
  have cq: "cur \<in> set (adj G q)" using q(3) sym by auto
  have qn: "q \<notin> set chain"
  proof
    assume "q \<in> set chain"
    with clo cq have "cur \<in> set (J # chain) \<or> q = prev" by blast
    with cJ cn q(1) show False by auto
  qed
  have pin: "prev \<in> set (J # chain)" using pl by (metis last_in_set list.distinct(1))
  have "walk_inv G J cur q (chain @ [cur])"
    unfolding walk_inv_def
  proof (intro conjI)
    show "distinct (chain @ [cur])" using inv cn by (simp add: walk_inv_def)
    show "q \<notin> set (chain @ [cur])" using qn q(2) by simp
    show "J \<notin> set (chain @ [cur])" using inv cJ by (simp add: walk_inv_def)
    show "\<forall>x\<in>set (chain @ [cur]). degree G x = 2" using inv d by (simp add: walk_inv_def)
    show "cur = last (J # chain @ [cur])" by simp
    show "cur \<in> set (adj G q)" by (rule cq)
    show "cur \<noteq> q" using q(2) by simp
    show "\<forall>x\<in>set (chain @ [cur]). \<forall>y\<in>set (adj G x).
            y \<in> set (J # chain @ [cur]) \<or> (x = cur \<and> y = q)"
    proof (intro ballI)
      fix x y assume x: "x \<in> set (chain @ [cur])" and y: "y \<in> set (adj G x)"
      show "y \<in> set (J # chain @ [cur]) \<or> (x = cur \<and> y = q)"
      proof (cases "x = cur")
        case True
        with y q(3) have "y = prev \<or> y = q" by auto
        with pin True show ?thesis by auto
      next
        case False
        with x have "x \<in> set chain" by simp
        with clo have "\<forall>y\<in>set (adj G x). y \<in> set (J # chain) \<or> (x = prev \<and> y = cur)"
          by (rule bspec)
        from bspec [OF this y] show ?thesis by auto
      qed
    qed
    have pe1: "path_edges (J # chain @ [cur]) = path_edges (J # chain) @ [sorted_pair prev cur]"
      using path_edges_snoc [of "J # chain" cur] pl by simp
    have pe2: "path_edges (J # (chain @ [cur]) @ [q]) =
        path_edges (J # chain @ [cur]) @ [sorted_pair cur q]"
      using path_edges_snoc [of "J # chain @ [cur]" q] by simp
    show "\<forall>x\<in>set (chain @ [cur]). \<forall>y\<in>set (adj G x).
            sorted_pair x y \<in> set (path_edges (J # (chain @ [cur]) @ [q]))"
    proof (intro ballI)
      fix x y assume x: "x \<in> set (chain @ [cur])" and y: "y \<in> set (adj G x)"
      show "sorted_pair x y \<in> set (path_edges (J # (chain @ [cur]) @ [q]))"
      proof (cases "x = cur")
        case True
        with y q(3) have "y = prev \<or> y = q" by auto
        then show ?thesis
          unfolding pe2 pe1 using True sorted_pair_commute [of cur prev] by auto
      next
        case False
        with x have "x \<in> set chain" by simp
        with clo' have "\<forall>y\<in>set (adj G x). sorted_pair x y \<in> set (path_edges (J # chain @ [cur]))"
          by (rule bspec)
        from bspec [OF this y] show ?thesis unfolding pe2 by simp
      qed
    qed
    have "is_path G ((J # chain) @ [cur])" using inv by (simp add: walk_inv_def)
    moreover have "q \<in> set (adj G cur)" using q(3) by simp
    ultimately have "is_path G ((J # chain) @ [cur, q])" by (rule is_path_snoc)
    then show "is_path G (J # (chain @ [cur]) @ [q])" by simp
  qed
  with q(4) show ?thesis by blast
qed

lemma walk_chain_total:
  assumes wf: "wf_graph G" and J: "degree G J \<noteq> 2"
  shows "walk_inv G J prev cur chain \<Longrightarrow>
     \<exists>chain' prev' cur'.
       walk_chain G prev cur chain (V \<union> set (path_edges (J # chain))) =
         Some (Inr (chain', prev', cur', V \<union> set (path_edges (J # chain')))) \<and>
       walk_inv G J prev' cur' chain' \<and> degree G cur' \<noteq> 2 \<and> (\<exists>ys. chain' = chain @ ys) \<and>
       (degree G cur = 2 \<longrightarrow> (\<exists>ys. chain' = chain @ cur # ys))"
proof (induction "length (nodes G) - length chain" arbitrary: prev cur chain rule: less_induct)
  case less
  note inv = less.prems
  show ?case
  proof (cases "degree G cur = 2")
    case False
    then have "walk_chain G prev cur chain (V \<union> set (path_edges (J # chain))) =
        Some (Inr (chain, prev, cur, V \<union> set (path_edges (J # chain))))"
      by (subst walk_chain.simps) simp
    with inv False show ?thesis by blast
  next
    case True
    from walk_step [OF wf J inv True] obtain q where
      f: "filter (\<lambda>n. n \<noteq> prev) (adj G cur) = [q]" and inv': "walk_inv G J cur q (chain @ [cur])"
      by blast
    have cnode: "cur \<in> set (nodes G)" using wf True by (rule degree_two_node)
    have sub: "set (chain @ [cur]) \<subseteq> set (nodes G)"
      using inv' wf by (auto simp: walk_inv_def intro: degree_two_node)
    have "distinct (chain @ [cur])" using inv' by (simp add: walk_inv_def)
    with sub have "length (chain @ [cur]) \<le> length (nodes G)"
      by (metis card_mono distinct_card List.finite_set card_length le_trans)
    then have m: "length (nodes G) - length (chain @ [cur]) < length (nodes G) - length chain"
      by simp
    have pl: "prev = last (J # chain)" using inv unfolding walk_inv_def by blast
    have e: "insert (sorted_pair prev cur) (V \<union> set (path_edges (J # chain))) =
        V \<union> set (path_edges (J # chain @ [cur]))"
      using path_edges_snoc [of "J # chain" cur] pl by simp
    have unf: "walk_chain G prev cur chain (V \<union> set (path_edges (J # chain))) =
        walk_chain G cur q (chain @ [cur]) (V \<union> set (path_edges (J # chain @ [cur])))"
      by (subst walk_chain.simps) (simp add: True neighbors_def cnode f e)
    from less.hyps [OF m inv'] obtain chain' prev' cur' where
      r: "walk_chain G cur q (chain @ [cur]) (V \<union> set (path_edges (J # chain @ [cur]))) =
            Some (Inr (chain', prev', cur', V \<union> set (path_edges (J # chain'))))"
         "walk_inv G J prev' cur' chain'" "degree G cur' \<noteq> 2" "\<exists>ys. chain' = (chain @ [cur]) @ ys"
      by blast
    from r(4) have "\<exists>ys. chain' = chain @ cur # ys" by auto
    moreover from this have "\<exists>ys. chain' = chain @ ys" by blast
    ultimately show ?thesis using unf r(1-3) by simp
  qed
qed

subsection \<open>What the two loops keep true\<close>

lemma edge_disjoint_snoc:
  "edge_disjoint (cs @ [c]) \<longleftrightarrow>
     edge_disjoint cs \<and> (\<forall>d\<in>set cs. set (chain_edges d) \<inter> set (chain_edges c) = {})"
proof
  assume a: "edge_disjoint (cs @ [c])"
  have "edge_disjoint cs"
    unfolding edge_disjoint_def
  proof (intro allI impI)
    fix i j assume ij: "i < j \<and> j < length cs"
    then have "i < j \<and> j < length (cs @ [c])" by simp
    with a have "set (chain_edges ((cs @ [c]) ! i)) \<inter> set (chain_edges ((cs @ [c]) ! j)) = {}"
      unfolding edge_disjoint_def by blast
    with ij show "set (chain_edges (cs ! i)) \<inter> set (chain_edges (cs ! j)) = {}"
      by (simp add: nth_append)
  qed
  moreover have "\<forall>d\<in>set cs. set (chain_edges d) \<inter> set (chain_edges c) = {}"
  proof
    fix d assume "d \<in> set cs"
    then obtain i where i: "i < length cs" "cs ! i = d" by (auto simp: in_set_conv_nth)
    then have "i < length cs \<and> length cs < length (cs @ [c])" by simp
    with a have "set (chain_edges ((cs @ [c]) ! i)) \<inter> set (chain_edges ((cs @ [c]) ! length cs)) = {}"
      unfolding edge_disjoint_def by blast
    with i show "set (chain_edges d) \<inter> set (chain_edges c) = {}"
      by (simp add: nth_append)
  qed
  ultimately show "edge_disjoint cs \<and> (\<forall>d\<in>set cs. set (chain_edges d) \<inter> set (chain_edges c) = {})"
    by blast
next
  assume a: "edge_disjoint cs \<and> (\<forall>d\<in>set cs. set (chain_edges d) \<inter> set (chain_edges c) = {})"
  show "edge_disjoint (cs @ [c])"
    unfolding edge_disjoint_def
  proof (intro allI impI)
    fix i j assume ij: "i < j \<and> j < length (cs @ [c])"
    show "set (chain_edges ((cs @ [c]) ! i)) \<inter> set (chain_edges ((cs @ [c]) ! j)) = {}"
    proof (cases "j < length cs")
      case True
      with ij a show ?thesis unfolding edge_disjoint_def by (simp add: nth_append)
    next
      case False
      with ij have j: "j = length cs" and i: "i < length cs" by auto
      then have "cs ! i \<in> set cs" by simp
      with a j i show ?thesis by (simp add: nth_append)
    qed
  qed
qed

lemma sample_from_Nil: "sample_from n [] = {}"
  by (simp add: sample_from_def)

lemma sample_from_iff:
  "y \<in> sample_from n xs \<longleftrightarrow> (\<exists>i. y = xs ! i \<and> i < length xs \<and> (n + i) mod 4 = 0)"
  unfolding sample_from_def by (rule mem_Collect_eq)

lemma sample_from_Cons:
  "sample_from n (x # xs) = (if n mod 4 = 0 then {x} else {}) \<union> sample_from (Suc n) xs"
proof (rule set_eqI, rule iffI)
  fix y assume "y \<in> sample_from n (x # xs)"
  then obtain i where i: "y = (x # xs) ! i" "i < length (x # xs)" "(n + i) mod 4 = 0"
    unfolding sample_from_iff by (elim exE conjE)
  show "y \<in> (if n mod 4 = 0 then {x} else {}) \<union> sample_from (Suc n) xs"
  proof (cases i)
    case 0
    with i show ?thesis by simp
  next
    case (Suc k)
    with i have "y = xs ! k \<and> k < length xs \<and> (Suc n + k) mod 4 = 0" by simp
    then have "y \<in> sample_from (Suc n) xs" unfolding sample_from_iff by (rule exI)
    then show ?thesis by simp
  qed
next
  fix y assume "y \<in> (if n mod 4 = 0 then {x} else {}) \<union> sample_from (Suc n) xs"
  then have "(n mod 4 = 0 \<and> y = x) \<or> y \<in> sample_from (Suc n) xs"
    by (simp split: if_splits)
  then show "y \<in> sample_from n (x # xs)"
  proof
    assume "n mod 4 = 0 \<and> y = x"
    then have "y = (x # xs) ! 0 \<and> 0 < length (x # xs) \<and> (n + 0) mod 4 = 0" by simp
    then show ?thesis unfolding sample_from_iff by (rule exI)
  next
    assume "y \<in> sample_from (Suc n) xs"
    then obtain k where "y = xs ! k" "k < length xs" "(Suc n + k) mod 4 = 0"
      unfolding sample_from_iff by (elim exE conjE)
    then have "y = (x # xs) ! Suc k \<and> Suc k < length (x # xs) \<and> (n + Suc k) mod 4 = 0" by simp
    then show ?thesis unfolding sample_from_iff by (rule exI)
  qed
qed

lemma sample_chain_from:
  "fold (\<lambda>(i, chain_node) acc. if i mod 4 = 0 then insert chain_node acc else acc)
     (enumerate n xs) acc = acc \<union> sample_from n xs"
proof (induction xs arbitrary: n acc)
  case Nil
  then show ?case by (simp add: sample_from_Nil)
next
  case (Cons x xs)
  show ?case
    by (simp add: Cons.IH sample_from_Cons)
qed

lemma sample_chain_eq: "sample_chain chain acc = acc \<union> sample_set chain"
  using sample_chain_from [of 0 chain acc]
  by (simp add: sample_chain_def sample_set_def sample_from_def)

lemma path_edges_single: "path_edges [a] = []"
  by (simp add: path_edges_def)

lemma path_edges_Cons2: "path_edges (a # b # r) = sorted_pair a b # path_edges (b # r)"
  by (simp add: path_edges_def)

lemma fresh_path:
  assumes wf: "wf_graph G" and cl: "closed_at_path_nodes G V"
  shows "is_path G (a # xs @ [t]) \<Longrightarrow> \<forall>x\<in>set xs. degree G x = 2 \<Longrightarrow>
     sorted_pair a (hd (xs @ [t])) \<notin> V \<Longrightarrow> set (path_edges (a # xs @ [t])) \<inter> V = {}"
proof (induction xs arbitrary: a)
  case Nil
  then show ?case by (simp add: path_edges_Cons2 path_edges_single)
next
  case (Cons x xs)
  have sym: "\<And>u v. v \<in> set (adj G u) \<Longrightarrow> u \<in> set (adj G v)"
    using wf by (simp add: wf_graph_def)
  from Cons.prems(1) have xa: "x \<in> set (adj G a)" and p: "is_path G (x # xs @ [t])" by simp_all
  from p have hx: "hd (xs @ [t]) \<in> set (adj G x)" by (cases xs) simp_all
  from Cons.prems(2) have dx: "degree G x = 2" and dxs: "\<forall>x\<in>set xs. degree G x = 2" by simp_all
  from Cons.prems(3) have nv: "sorted_pair x a \<notin> V" by (simp add: sorted_pair_commute)
  have "sorted_pair x (hd (xs @ [t])) \<notin> V"
  proof
    assume "sorted_pair x (hd (xs @ [t])) \<in> V"
    with cl dx hx sym [OF xa] have "sorted_pair x a \<in> V"
      unfolding closed_at_path_nodes_def by blast
    with nv show False ..
  qed
  from Cons.IH [OF p dxs this] have "set (path_edges (x # xs @ [t])) \<inter> V = {}" .
  with Cons.prems(3) show ?case by (simp add: path_edges_Cons2)
qed

lemma closed_after_walk:
  assumes cl: "closed_at_path_nodes G V"
    and dJ: "degree G J \<noteq> 2" and dT: "degree G T \<noteq> 2"
    and clo: "\<forall>x\<in>set chain. \<forall>y\<in>set (adj G x). sorted_pair x y \<in> set (path_edges (J # chain @ [T]))"
  shows "closed_at_path_nodes G (V \<union> set (path_edges (J # chain @ [T])))"
  unfolding closed_at_path_nodes_def
proof (intro allI impI)
  fix p x y
  assume a: "degree G p = 2 \<and> x \<in> set (adj G p) \<and> y \<in> set (adj G p) \<and>
    sorted_pair p x \<in> V \<union> set (path_edges (J # chain @ [T]))"
  show "sorted_pair p y \<in> V \<union> set (path_edges (J # chain @ [T]))"
  proof (cases "p \<in> set chain")
    case True
    with clo have "\<forall>y\<in>set (adj G p). sorted_pair p y \<in> set (path_edges (J # chain @ [T]))"
      by (rule bspec)
    with a show ?thesis by simp
  next
    case False
    have "sorted_pair p x \<notin> set (path_edges (J # chain @ [T]))"
    proof
      assume "sorted_pair p x \<in> set (path_edges (J # chain @ [T]))"
      then have "p \<in> set (J # chain @ [T])" by (rule path_edges_endpoints [THEN conjunct1])
      with False a dJ dT show False by auto
    qed
    with a have "sorted_pair p x \<in> V" by simp
    with cl a have "sorted_pair p y \<in> V" unfolding closed_at_path_nodes_def by blast
    then show ?thesis by simp
  qed
qed

lemma visit_neighbor_step:
  assumes wf: "wf_graph G" and dJ: "degree G node \<noteq> 2"
    and nb: "neighbor \<in> set (adj G node)" and inv: "pass_inv G s"
  shows "\<exists>s'. visit_neighbor G node neighbor s = Some (Inr s') \<and> pass_inv G s' \<and>
           visited_chains s \<subseteq> visited_chains s' \<and>
           (degree G neighbor = 2 \<longrightarrow> sorted_pair node neighbor \<in> visited_chains s')"
proof (cases "degree G neighbor = 2 \<and> sorted_pair node neighbor \<notin> visited_chains s")
  case False
  then have r: "visit_neighbor G node neighbor s = Some (Inr s)"
    by (auto simp: visit_neighbor_def)
  from False have "degree G neighbor = 2 \<longrightarrow> sorted_pair node neighbor \<in> visited_chains s"
    by simp
  with r inv show ?thesis by (intro exI [of _ s] conjI subset_refl)
next
  case True
  then have d2: "degree G neighbor = 2" and nv: "sorted_pair node neighbor \<notin> visited_chains s"
    by simp_all
  define V where "V = visited_chains s"
  have sym: "\<And>u v. v \<in> set (adj G u) \<Longrightarrow> u \<in> set (adj G v)"
    using wf by (simp add: wf_graph_def)
  have ne: "node \<noteq> neighbor" using dJ d2 by auto
  have wi: "walk_inv G node node neighbor []"
    using nb sym [OF nb] ne by (simp add: walk_inv_def)
  from walk_chain_total [OF wf dJ wi, of V] d2 obtain chain' prev' cur' ys where
    w: "walk_chain G node neighbor [] V = Some (Inr (chain', prev', cur', V \<union> set (path_edges (node # chain'))))"
    and wi': "walk_inv G node prev' cur' chain'" and dT: "degree G cur' \<noteq> 2"
    and ch: "chain' = neighbor # ys"
    by (auto simp: path_edges_single)
  define c where "c = \<lparr>origin = node, interior = chain', terminal = cur'\<rparr>"
  define s' where "s' = \<lparr>visited_chains = V \<union> set (chain_edges c),
                          additional_mh = additional_mh s \<union> sample_set chain',
                          discovered = discovered s @ [c]\<rparr>"
  from wi' have pl: "prev' = last (node # chain')" unfolding walk_inv_def by blast
  have E: "insert (sorted_pair prev' cur') (V \<union> set (path_edges (node # chain'))) =
      V \<union> set (chain_edges c)"
    using path_edges_snoc [of "node # chain'" cur'] pl by (simp add: chain_edges_def c_def)
  have res: "visit_neighbor G node neighbor s = Some (Inr s')"
    unfolding visit_neighbor_def s'_def
    using True w E ch by (simp add: V_def [symmetric] sample_chain_eq c_def)
  have path: "is_path G (node # chain' @ [cur'])"
    and d2s: "\<forall>x\<in>set chain'. degree G x = 2"
    and dist: "distinct chain'"
    and clo: "\<forall>x\<in>set chain'. \<forall>y\<in>set (adj G x).
                sorted_pair x y \<in> set (path_edges (node # chain' @ [cur']))"
    using wi' unfolding walk_inv_def by blast+
  have cl: "closed_at_path_nodes G V" using inv unfolding pass_inv_def V_def by (rule conjunct1)
  have nv': "sorted_pair node (hd (chain' @ [cur'])) \<notin> V" using nv ch by (simp add: V_def)
  from fresh_path [OF wf cl path d2s nv']
  have fresh: "set (chain_edges c) \<inter> V = {}"
    by (simp add: chain_edges_def c_def)
  have vc: "valid_chain G c"
    unfolding valid_chain_def chain_edges_def c_def
    using dJ dT ch dist d2s path clo by simp
  have old: "V = (\<Union>d\<in>set (discovered s). set (chain_edges d))"
    using inv unfolding pass_inv_def V_def by (elim conjE)
  have "closed_at_path_nodes G (V \<union> set (chain_edges c))"
    unfolding chain_edges_def c_def using closed_after_walk [OF cl dJ dT clo]
    by simp
  moreover have "V \<union> set (chain_edges c) = (\<Union>d\<in>set (discovered s @ [c]). set (chain_edges d))"
    using old by auto
  moreover have "\<forall>d\<in>set (discovered s @ [c]). valid_chain G d"
    using inv vc by (simp add: pass_inv_def)
  moreover have "edge_disjoint (discovered s @ [c])"
    unfolding edge_disjoint_snoc using inv fresh old by (auto simp: pass_inv_def)
  moreover have "additional_mh s \<union> sample_set chain' =
      (\<Union>d\<in>set (discovered s @ [c]). sample_set (interior d))"
    using inv by (auto simp: pass_inv_def c_def)
  ultimately have pi: "pass_inv G s'"
    unfolding pass_inv_def s'_def by simp
  have mono: "visited_chains s \<subseteq> visited_chains s'"
    by (simp add: s'_def V_def)
  have "sorted_pair node neighbor \<in> set (chain_edges c)"
    by (simp add: chain_edges_def c_def ch path_edges_Cons2)
  then have cov: "degree G neighbor = 2 \<longrightarrow> sorted_pair node neighbor \<in> visited_chains s'"
    by (simp add: s'_def)
  from res pi mono cov show ?thesis by (intro exI [of _ s'] conjI)
qed

lemma visit_neighbor_inv:
  assumes wf: "wf_graph G" and dJ: "degree G node \<noteq> 2"
    and nb: "neighbor \<in> set (adj G node)" and inv: "pass_inv G s"
  shows "\<exists>s'. visit_neighbor G node neighbor s = Some (Inr s') \<and> pass_inv G s'"
proof -
  from visit_neighbor_step [OF assms] obtain s' where
    "visit_neighbor G node neighbor s = Some (Inr s')" "pass_inv G s'"
    by (elim exE conjE)
  then show ?thesis by (intro exI [of _ s'] conjI)
qed

lemma visit_neighbors_inv:
  assumes wf: "wf_graph G" and dJ: "degree G node \<noteq> 2"
  shows "set nbrs \<subseteq> set (adj G node) \<Longrightarrow> pass_inv G s \<Longrightarrow>
     \<exists>s'. visit_neighbors G node nbrs s = Some (Inr s') \<and> pass_inv G s'"
proof (induction nbrs arbitrary: s)
  case Nil
  then show ?case by simp
next
  case (Cons n nbrs)
  from Cons.prems have "n \<in> set (adj G node)" by simp
  from visit_neighbor_inv [OF wf dJ this Cons.prems(2)] obtain s1 where
    s1: "visit_neighbor G node n s = Some (Inr s1)" "pass_inv G s1" by blast
  from Cons.prems have "set nbrs \<subseteq> set (adj G node)" by simp
  from Cons.IH [OF this s1(2)] s1(1) show ?case by simp
qed

lemma visit_nodes_inv:
  assumes wf: "wf_graph G"
  shows "\<forall>j\<in>set js. j \<in> set (nodes G) \<and> degree G j \<noteq> 2 \<Longrightarrow> pass_inv G s \<Longrightarrow>
     \<exists>s'. visit_nodes G js s = Some (Inr s') \<and> pass_inv G s'"
proof (induction js arbitrary: s)
  case Nil
  then show ?case by simp
next
  case (Cons j js)
  from Cons.prems have j: "j \<in> set (nodes G)" "degree G j \<noteq> 2" by simp_all
  from visit_neighbors_inv [OF wf j(2) subset_refl Cons.prems(2)] obtain s1 where
    s1: "visit_neighbors G j (adj G j) s = Some (Inr s1)" "pass_inv G s1" by blast
  from Cons.prems have "\<forall>j\<in>set js. j \<in> set (nodes G) \<and> degree G j \<noteq> 2" by simp
  from Cons.IH [OF this s1(2)] s1(1) j(1) show ?case by (simp add: neighbors_def)
qed

lemma pass_inv_initial: "pass_inv G initial_state"
  by (simp add: pass_inv_def initial_state_def closed_at_path_nodes_def edge_disjoint_def)

lemma critical_manholes_filter:
  "critical_manholes G = filter (\<lambda>n. degree G n \<noteq> 2) (nodes G)"
  by (simp add: critical_manholes_def degree_view_def filter_map comp_def)

lemma critical_manholes_iff:
  "j \<in> set (critical_manholes G) \<longleftrightarrow> j \<in> set (nodes G) \<and> degree G j \<noteq> 2"
  by (simp add: critical_manholes_filter)

lemma chain_pass_inv:
  assumes wf: "wf_graph G" and sub: "set order \<subseteq> set (critical_manholes G)"
  shows "\<exists>s. chain_pass order G = Some (Inr s) \<and> pass_inv G s"
proof -
  from sub have "\<forall>j\<in>set order. j \<in> set (nodes G) \<and> degree G j \<noteq> 2"
    by (auto simp: critical_manholes_iff)
  from visit_nodes_inv [OF wf this pass_inv_initial] show ?thesis
    by (simp add: chain_pass_def)
qed

lemma identify_characterised:
  assumes ord: "iteration_order order df"
  shows "\<exists>s. chain_pass order (from_pandas_edgelist df) = Some (Inr s) \<and>
           pass_inv (from_pandas_edgelist df) s \<and>
           identify_necessary_manholes order df =
             Some (Inr (set (critical_manholes (from_pandas_edgelist df)) \<union> additional_mh s))"
proof -
  define G where "G = from_pandas_edgelist df"
  have wf: "wf_graph G" unfolding G_def by (rule wf_from_pandas_edgelist)
  from ord have sub: "set order \<subseteq> set (critical_manholes G)"
    by (simp add: iteration_order_def G_def)
  from chain_pass_inv [OF wf sub] obtain s where
    s: "chain_pass order G = Some (Inr s)" "pass_inv G s" by blast
  show ?thesis
  proof (cases "number_of_nodes G = 0")
    case False
    with s show ?thesis
      by (simp add: identify_necessary_manholes_def G_def [symmetric])
  next
    case True
    then have n: "nodes G = []" by (simp add: number_of_nodes_def)
    then have c: "critical_manholes G = []" by (simp add: critical_manholes_filter)
    with sub have "order = []" by simp
    with s have "s = initial_state" by (simp add: chain_pass_def)
    then have "additional_mh s = {}" by (simp add: initial_state_def)
    with s True c show ?thesis
      by (simp add: identify_necessary_manholes_def G_def [symmetric])
  qed
qed

subsection \<open>The claims of the specification\<close>

lemmas graph_eval = from_pandas_edgelist_def add_edges_from_def add_edge_def add_node_def
  set_adj_def empty_graph_def pipe_row_def

lemma branch_graph:
  "from_pandas_edgelist branch_pipes =
     \<lparr>nodes = [1, 2, 3, 4, 5, 6, 7, 8],
      adj = (\<lambda>_. [])(1 := [2], 2 := [1, 3], 3 := [2, 4], 4 := [3, 5], 5 := [4, 6],
                           6 := [5, 7, 8], 7 := [6], 8 := [6])\<rparr>"
  by (simp add: branch_pipes_def graph_eval fun_upd_twist)

lemma branch_critical: "critical_manholes (from_pandas_edgelist branch_pipes) = [1, 6, 7, 8]"
  by (simp add: branch_graph critical_manholes_filter degree_def)

lemma iteration_order_branch: "iteration_order [1, 6, 7, 8] branch_pipes"
  by (simp add: iteration_order_def branch_critical)

text \<open>
  C3. For every pipe table, the function returns a set, and every node of the built graph
  whose degree is not 2 is in it.
\<close>

theorem necessary_contains_junctions:
  fixes order :: "'a::linorder list"
  assumes "iteration_order order df"
  shows "\<exists>necessary_mh.
           identify_necessary_manholes order df = Some (Inr necessary_mh) \<and>
           {n \<in> set (nodes (from_pandas_edgelist df)). degree (from_pandas_edgelist df) n \<noteq> 2}
             \<subseteq> necessary_mh"
proof -
  from identify_characterised [OF assms] obtain s :: "'a walk_state" where
    "identify_necessary_manholes order df =
       Some (Inr (set (critical_manholes (from_pandas_edgelist df)) \<union> additional_mh s))"
    by blast
  then show ?thesis
    by (auto simp: critical_manholes_iff)
qed

theorem necessary_contains_junctions_witness:
  "iteration_order [1, 6, 7, 8] branch_pipes \<and>
   (\<exists>necessary_mh.
      identify_necessary_manholes [1, 6, 7, 8] branch_pipes = Some (Inr necessary_mh) \<and>
      {1, 6, 7, 8} \<subseteq> necessary_mh)"
proof -
  have "{n \<in> set (nodes (from_pandas_edgelist branch_pipes)).
          degree (from_pandas_edgelist branch_pipes) n \<noteq> 2} = {1, 6, 7, 8}"
    using critical_manholes_iff [of _ "from_pandas_edgelist branch_pipes"]
    by (auto simp: branch_critical)
  with necessary_contains_junctions [OF iteration_order_branch] iteration_order_branch
  show ?thesis by simp
qed

lemma sample_set_subset: "sample_set xs \<subseteq> set xs"
  by (auto simp: sample_set_def)

lemma additional_path_nodes:
  assumes "pass_inv G s"
  shows "additional_mh s \<subseteq> (\<Union>c\<in>set (discovered s). set (interior c))"
    and "\<forall>c\<in>set (discovered s). \<forall>x\<in>set (interior c). degree G x = 2"
  using assms sample_set_subset by (fastforce simp: pass_inv_def valid_chain_def)+

text \<open>
  In the first model the function ends and returns a set for every table, in whatever
  order the loop finds the critical manholes, and there is such an order for every table.
\<close>

lemma typed_tables_never_raise:
  fixes order order' :: "'a::linorder list" and df :: "('a, 'b) pipe list"
  shows "(iteration_order order df \<longrightarrow>
            (\<exists>necessary_mh. identify_necessary_manholes order df = Some (Inr necessary_mh))) \<and>
         iteration_order (critical_manholes (from_pandas_edgelist df)) df \<and>
         identify_necessary_manholes order' ([] :: ('a, 'b) pipe list) = Some (Inr {})"
proof (intro conjI)
  have "distinct (nodes (from_pandas_edgelist df))"
    using wf_from_pandas_edgelist [of df] by (simp add: wf_graph_def)
  then show "iteration_order (critical_manholes (from_pandas_edgelist df)) df"
    by (simp add: iteration_order_def critical_manholes_filter)
  show "iteration_order order df \<longrightarrow>
      (\<exists>necessary_mh. identify_necessary_manholes order df = Some (Inr necessary_mh))"
  proof
    assume "iteration_order order df"
    from identify_characterised [OF this] show
      "\<exists>necessary_mh. identify_necessary_manholes order df = Some (Inr necessary_mh)"
      by blast
  qed
  show "identify_necessary_manholes order' ([] :: ('a, 'b) pipe list) = Some (Inr {})"
    by (simp add: identify_necessary_manholes_def from_pandas_edgelist_def add_edges_from_def
        empty_graph_def number_of_nodes_def)
qed

text \<open>
  C10. Every returned node is a node of the built graph, that is an endpoint of a pipe
  row; the returned set is the nodes of degree other than 2 together with the sampled
  nodes, and every sampled node has degree 2.
\<close>

theorem necessary_within_graph:
  fixes order :: "'a::linorder list"
  assumes "iteration_order order df"
  shows "\<exists>necessary_mh s.
           identify_necessary_manholes order df = Some (Inr necessary_mh) \<and>
           chain_pass order (from_pandas_edgelist df) = Some (Inr s) \<and>
           necessary_mh =
             {n \<in> set (nodes (from_pandas_edgelist df)). degree (from_pandas_edgelist df) n \<noteq> 2}
               \<union> additional_mh s \<and>
           additional_mh s \<subseteq>
             {n \<in> set (nodes (from_pandas_edgelist df)). degree (from_pandas_edgelist df) n = 2} \<and>
           necessary_mh \<subseteq> set (nodes (from_pandas_edgelist df)) \<and>
           necessary_mh \<subseteq> start_node ` set df \<union> stop_node ` set df"
proof -
  define G where "G = from_pandas_edgelist df"
  have wf: "wf_graph G" unfolding G_def by (rule wf_from_pandas_edgelist)
  from identify_characterised [OF assms] obtain s :: "'a walk_state" where
    s: "chain_pass order G = Some (Inr s)" "pass_inv G s"
       "identify_necessary_manholes order df =
          Some (Inr (set (critical_manholes G) \<union> additional_mh s))"
    unfolding G_def by blast
  have crit: "set (critical_manholes G) = {n \<in> set (nodes G). degree G n \<noteq> 2}"
    by (auto simp: critical_manholes_iff)
  have add: "additional_mh s \<subseteq> {n \<in> set (nodes G). degree G n = 2}"
  proof
    fix x assume "x \<in> additional_mh s"
    with additional_path_nodes [OF s(2)] have "degree G x = 2" by blast
    with wf show "x \<in> {n \<in> set (nodes G). degree G n = 2}"
      by (simp add: degree_two_node)
  qed
  have "set (critical_manholes G) \<union> additional_mh s \<subseteq> set (nodes G)"
    using crit add by blast
  with s crit add show ?thesis
    unfolding G_def [symmetric]
    by (simp add: nodes_from_pandas_edgelist [of df, folded G_def, symmetric])
qed

theorem necessary_within_graph_witness:
  "iteration_order [1, 6, 7, 8] branch_pipes \<and>
   (\<exists>necessary_mh.
      identify_necessary_manholes [1, 6, 7, 8] branch_pipes = Some (Inr necessary_mh) \<and>
      necessary_mh \<subseteq> {1, 2, 3, 4, 5, 6, 7, 8})"
proof -
  from necessary_within_graph [OF iteration_order_branch] obtain necessary_mh where
    "identify_necessary_manholes [1, 6, 7, 8] branch_pipes = Some (Inr necessary_mh)"
    "necessary_mh \<subseteq> set (nodes (from_pandas_edgelist branch_pipes))"
    by blast
  with iteration_order_branch show ?thesis by (simp add: branch_graph)
qed

lemma path_avoids_closed_set:
  assumes sym: "\<And>u v. v \<in> set (adj G u) \<Longrightarrow> u \<in> set (adj G v)"
    and closed: "\<forall>v\<in>C. set (adj G v) \<subseteq> C"
  shows "is_path G (a # xs) \<Longrightarrow> a \<notin> C \<Longrightarrow> set xs \<inter> C = {}"
proof (induction xs arbitrary: a)
  case Nil
  then show ?case by simp
next
  case (Cons x xs)
  from Cons.prems(1) have xa: "x \<in> set (adj G a)" and p: "is_path G (x # xs)" by simp_all
  have "x \<notin> C"
  proof
    assume "x \<in> C"
    with closed have "set (adj G x) \<subseteq> C" by (rule bspec)
    with sym [OF xa] Cons.prems(2) show False by auto
  qed
  with Cons.IH [OF p] show ?case by simp
qed

lemma is_path_prefix: "is_path G (xs @ ys) \<Longrightarrow> is_path G xs"
  by (induction G xs rule: is_path.induct) (auto simp: neq_Nil_conv)

lemma loop_graph:
  "from_pandas_edgelist loop_pipes =
     \<lparr>nodes = [1, 2, 3, 4, 5],
      adj = (\<lambda>_. [])(1 := [2, 3], 2 := [1, 3], 3 := [2, 1], 4 := [5], 5 := [4])\<rparr>"
  by (simp add: loop_pipes_def graph_eval fun_upd_twist)

lemma iteration_order_loop: "iteration_order [5, 4] loop_pipes"
  by (auto simp: iteration_order_def loop_graph critical_manholes_filter degree_def)

text \<open>
  C6. A set of nodes of the built graph that all have degree 2 and whose neighbours all
  lie in the set (a closed loop without a junction, or several) has no node in the
  returned set.
\<close>

theorem junction_free_loop_omitted:
  fixes order :: "'a::linorder list"
  assumes "iteration_order order df"
    and "C \<subseteq> set (nodes (from_pandas_edgelist df))"
    and "\<forall>v\<in>C. degree (from_pandas_edgelist df) v = 2 \<and> set (adj (from_pandas_edgelist df) v) \<subseteq> C"
  shows "\<exists>necessary_mh.
           identify_necessary_manholes order df = Some (Inr necessary_mh) \<and>
           necessary_mh \<inter> C = {}"
proof -
  define G where "G = from_pandas_edgelist df"
  have wf: "wf_graph G" unfolding G_def by (rule wf_from_pandas_edgelist)
  have sym: "\<And>u v. v \<in> set (adj G u) \<Longrightarrow> u \<in> set (adj G v)"
    using wf by (simp add: wf_graph_def)
  from assms(3) have closed: "\<forall>v\<in>C. set (adj G v) \<subseteq> C" and d2: "\<forall>v\<in>C. degree G v = 2"
    unfolding G_def by simp_all
  from identify_characterised [OF assms(1)] obtain s :: "'a walk_state" where
    s: "pass_inv G s"
       "identify_necessary_manholes order df =
          Some (Inr (set (critical_manholes G) \<union> additional_mh s))"
    unfolding G_def by blast
  have crit: "set (critical_manholes G) \<inter> C = {}"
    using d2 by (auto simp: critical_manholes_iff)
  have "additional_mh s \<inter> C = {}"
  proof (rule ccontr)
    assume "additional_mh s \<inter> C \<noteq> {}"
    then obtain x where x: "x \<in> additional_mh s" "x \<in> C" by blast
    with additional_path_nodes(1) [OF s(1)] obtain c where
      c: "c \<in> set (discovered s)" "x \<in> set (interior c)" by blast
    with s(1) have vc: "valid_chain G c" by (simp add: pass_inv_def)
    then have pp: "is_path G ((origin c # interior c) @ [terminal c])"
      and dj: "degree G (origin c) \<noteq> 2"
      by (simp_all add: valid_chain_def)
    from pp have "is_path G (origin c # interior c)" by (rule is_path_prefix)
    moreover from dj d2 have "origin c \<notin> C" by auto
    ultimately have "is_path G (origin c # interior c)" and "origin c \<notin> C" .
    from path_avoids_closed_set [OF sym closed this] have "set (interior c) \<inter> C = {}" .
    with c(2) x(2) show False by blast
  qed
  with crit s(2) show ?thesis by blast
qed

theorem junction_free_loop_omitted_witness:
  "iteration_order [5, 4] loop_pipes \<and>
   {1, 2, 3} \<subseteq> set (nodes (from_pandas_edgelist loop_pipes)) \<and>
   degree (from_pandas_edgelist loop_pipes) 1 = 2 \<and>
   degree (from_pandas_edgelist loop_pipes) 2 = 2 \<and>
   degree (from_pandas_edgelist loop_pipes) 3 = 2 \<and>
   (\<exists>necessary_mh.
      identify_necessary_manholes [5, 4] loop_pipes = Some (Inr necessary_mh) \<and>
      necessary_mh \<inter> {1, 2, 3} = {})"
proof -
  have a: "{1, 2, 3} \<subseteq> set (nodes (from_pandas_edgelist loop_pipes))"
    by (simp add: loop_graph)
  have b: "\<forall>v\<in>{1, 2, 3}. degree (from_pandas_edgelist loop_pipes) v = 2 \<and>
      set (adj (from_pandas_edgelist loop_pipes) v) \<subseteq> {1, 2, 3}"
    by (simp add: loop_graph degree_def)
  from junction_free_loop_omitted [OF iteration_order_loop a b] iteration_order_loop a b
  show ?thesis by simp
qed


lemma sample_set_image: "sample_set xs = (\<lambda>i. xs ! i) ` {i. i < length xs \<and> i mod 4 = 0}"
  unfolding sample_set_def by (rule set_eqI) (simp add: image_iff conj_commute)





lemma boundary_edge_last:
  "xs \<noteq> [] \<Longrightarrow> sorted_pair (last xs) t \<in> set (path_edges (xs @ [t]))"
  by (simp add: path_edges_snoc)

lemma is_path_last_step: "is_path G (xs @ [a, b]) \<Longrightarrow> b \<in> set (adj G a)"
proof (induction xs)
  case Nil
  then show ?case by simp
next
  case (Cons x xs)
  then show ?case by (cases xs) simp_all
qed

lemma visit_rejected:
  assumes "sorted_pair node neighbor \<in> visited_chains s"
  shows "visit_neighbor G node neighbor s = Some (Inr s)"
  using assms by (simp add: visit_neighbor_def)

lemma interiors_disjoint:
  assumes wf: "wf_graph G" and vc: "valid_chain G c" and vd: "valid_chain G d"
    and dis: "set (chain_edges c) \<inter> set (chain_edges d) = {}"
  shows "set (interior c) \<inter> set (interior d) = {}"
proof (rule ccontr)
  assume "set (interior c) \<inter> set (interior d) \<noteq> {}"
  then obtain x where x: "x \<in> set (interior c)" "x \<in> set (interior d)" by blast
  from vc x(1) have "degree G x = 2" by (simp add: valid_chain_def)
  then have "adj G x \<noteq> []" by (auto simp: degree_def)
  then obtain y where y: "y \<in> set (adj G x)" by (cases "adj G x") auto
  from vc have "\<forall>x\<in>set (interior c). \<forall>y\<in>set (adj G x). sorted_pair x y \<in> set (chain_edges c)"
    unfolding valid_chain_def by (elim conjE)
  from bspec [OF bspec [OF this x(1)] y] have 1: "sorted_pair x y \<in> set (chain_edges c)" .
  from vd have "\<forall>x\<in>set (interior d). \<forall>y\<in>set (adj G x). sorted_pair x y \<in> set (chain_edges d)"
    unfolding valid_chain_def by (elim conjE)
  from bspec [OF bspec [OF this x(2)] y] have 2: "sorted_pair x y \<in> set (chain_edges d)" .
  from 1 2 dis show False by blast
qed

lemma visit_neighbors_covers:
  assumes wf: "wf_graph G" and dJ: "degree G node \<noteq> 2"
  shows "set nbrs \<subseteq> set (adj G node) \<Longrightarrow> pass_inv G s \<Longrightarrow>
     \<exists>s'. visit_neighbors G node nbrs s = Some (Inr s') \<and> pass_inv G s' \<and>
       visited_chains s \<subseteq> visited_chains s' \<and>
       (\<forall>n\<in>set nbrs. degree G n = 2 \<longrightarrow> sorted_pair node n \<in> visited_chains s')"
proof (induction nbrs arbitrary: s)
  case Nil
  then show ?case by simp
next
  case (Cons n nbrs)
  from Cons.prems have "n \<in> set (adj G node)" by simp
  from visit_neighbor_step [OF wf dJ this Cons.prems(2)] obtain s1 where
    s1: "visit_neighbor G node n s = Some (Inr s1)" "pass_inv G s1"
      "visited_chains s \<subseteq> visited_chains s1"
      "degree G n = 2 \<longrightarrow> sorted_pair node n \<in> visited_chains s1"
    by (elim exE conjE)
  from Cons.prems have "set nbrs \<subseteq> set (adj G node)" by simp
  from Cons.IH [OF this s1(2)] obtain s2 where
    s2: "visit_neighbors G node nbrs s1 = Some (Inr s2)" "pass_inv G s2"
      "visited_chains s1 \<subseteq> visited_chains s2"
      "\<forall>n\<in>set nbrs. degree G n = 2 \<longrightarrow> sorted_pair node n \<in> visited_chains s2"
    by (elim exE conjE)
  have r: "visit_neighbors G node (n # nbrs) s = Some (Inr s2)"
    using s1(1) s2(1) by simp
  have m: "visited_chains s \<subseteq> visited_chains s2"
    using s1(3) s2(3) by (rule subset_trans)
  have "degree G n = 2 \<longrightarrow> sorted_pair node n \<in> visited_chains s2"
    using s1(4) s2(3) by auto
  with s2(4) have c: "\<forall>n\<in>set (n # nbrs). degree G n = 2 \<longrightarrow> sorted_pair node n \<in> visited_chains s2"
    by simp
  from r s2(2) m c show ?case by (intro exI [of _ s2] conjI)
qed

lemma visit_nodes_covers:
  assumes wf: "wf_graph G"
  shows "\<forall>j\<in>set js. j \<in> set (nodes G) \<and> degree G j \<noteq> 2 \<Longrightarrow> pass_inv G s \<Longrightarrow>
     \<exists>s'. visit_nodes G js s = Some (Inr s') \<and> pass_inv G s' \<and>
       visited_chains s \<subseteq> visited_chains s' \<and>
       (\<forall>j\<in>set js. \<forall>n\<in>set (adj G j). degree G n = 2 \<longrightarrow> sorted_pair j n \<in> visited_chains s')"
proof (induction js arbitrary: s)
  case Nil
  then show ?case by simp
next
  case (Cons j js)
  from Cons.prems have j: "j \<in> set (nodes G)" "degree G j \<noteq> 2" by simp_all
  from visit_neighbors_covers [OF wf j(2) subset_refl Cons.prems(2)] obtain s1 where
    s1: "visit_neighbors G j (adj G j) s = Some (Inr s1)" "pass_inv G s1"
      "visited_chains s \<subseteq> visited_chains s1"
      "\<forall>n\<in>set (adj G j). degree G n = 2 \<longrightarrow> sorted_pair j n \<in> visited_chains s1"
    by (elim exE conjE)
  from Cons.prems have "\<forall>j\<in>set js. j \<in> set (nodes G) \<and> degree G j \<noteq> 2" by simp
  from Cons.IH [OF this s1(2)] obtain s2 where
    s2: "visit_nodes G js s1 = Some (Inr s2)" "pass_inv G s2"
      "visited_chains s1 \<subseteq> visited_chains s2"
      "\<forall>j\<in>set js. \<forall>n\<in>set (adj G j). degree G n = 2 \<longrightarrow> sorted_pair j n \<in> visited_chains s2"
    by (elim exE conjE)
  have r: "visit_nodes G (j # js) s = Some (Inr s2)"
    using s1(1) s2(1) j(1) by (simp add: neighbors_def)
  have m: "visited_chains s \<subseteq> visited_chains s2"
    using s1(3) s2(3) by (rule subset_trans)
  have "\<forall>n\<in>set (adj G j). degree G n = 2 \<longrightarrow> sorted_pair j n \<in> visited_chains s2"
    using s1(4) s2(3) by auto
  with s2(4) have c: "\<forall>j\<in>set (j # js). \<forall>n\<in>set (adj G j).
      degree G n = 2 \<longrightarrow> sorted_pair j n \<in> visited_chains s2"
    by simp
  from r s2(2) m c show ?case by (intro exI [of _ s2] conjI)
qed

lemma chain_pass_covers:
  assumes wf: "wf_graph G" and sub: "set order \<subseteq> set (critical_manholes G)"
  shows "\<exists>s. chain_pass order G = Some (Inr s) \<and> pass_inv G s \<and>
     (\<forall>j\<in>set order. \<forall>n\<in>set (adj G j). degree G n = 2 \<longrightarrow> sorted_pair j n \<in> visited_chains s)"
proof -
  from sub have "\<forall>j\<in>set order. j \<in> set (nodes G) \<and> degree G j \<noteq> 2"
    by (auto simp: critical_manholes_iff)
  from visit_nodes_covers [OF wf this pass_inv_initial] obtain s where
    "visit_nodes G order initial_state = Some (Inr s)" "pass_inv G s"
    "\<forall>j\<in>set order. \<forall>n\<in>set (adj G j). degree G n = 2 \<longrightarrow> sorted_pair j n \<in> visited_chains s"
    by (elim exE conjE)
  then show ?thesis
    unfolding chain_pass_def by (intro exI [of _ s] conjI)
qed

lemma boundary_edge_ends:
  "sorted_pair a b \<in> set (path_edges (x # xs @ [t])) \<Longrightarrow> xs \<noteq> [] \<Longrightarrow> a \<notin> set xs \<Longrightarrow>
   x = a \<and> hd xs = b \<or> t = a \<and> last xs = b"
proof (induction xs arbitrary: x)
  case Nil
  then show ?case by simp
next
  case (Cons y ys)
  show ?case
  proof (cases ys)
    case Nil
    with Cons.prems show ?thesis
      by (auto simp: path_edges_Cons2 path_edges_single sorted_pair_eq_iff)
  next
    case ys: (Cons z zs)
    from Cons.prems(1) have "sorted_pair a b = sorted_pair x y \<or>
        sorted_pair a b \<in> set (path_edges (y # ys @ [t]))"
      by (simp add: path_edges_Cons2)
    then show ?thesis
    proof
      assume "sorted_pair a b = sorted_pair x y"
      with Cons.prems(3) show ?thesis by (auto simp: sorted_pair_eq_iff)
    next
      assume e: "sorted_pair a b \<in> set (path_edges (y # ys @ [t]))"
      from ys have "ys \<noteq> []" by simp
      moreover from Cons.prems(3) have "a \<notin> set ys" by simp
      ultimately have "y = a \<and> hd ys = b \<or> t = a \<and> last ys = b"
        by (rule Cons.IH [OF e])
      with Cons.prems(3) \<open>ys \<noteq> []\<close> show ?thesis by auto
    qed
  qed
qed

text \<open>
  C1, amended, for tables whose labels are of one ordered type. The edges the walks record
  are those of the discovered chains; no edge belongs to two discovered chains, and no
  node lies inside two of them. For every critical manhole and every neighbour of it of
  degree 2, exactly one discovered chain holds the edge between them, and that chain
  begins or ends with this edge. The edge between the end of a chain and the last chain
  node is among the chain's edges, so that in every state that holds these edges the
  attempt from that end along this edge changes nothing.
\<close>

theorem each_edge_in_one_chain:
  fixes order :: "'a::linorder list"
  assumes "iteration_order order df"
  shows "\<exists>s. chain_pass order (from_pandas_edgelist df) = Some (Inr s) \<and>
           visited_chains s = (\<Union>c\<in>set (discovered s). set (chain_edges c)) \<and>
           (\<forall>i j. i < j \<and> j < length (discovered s) \<longrightarrow>
              set (chain_edges (discovered s ! i)) \<inter> set (chain_edges (discovered s ! j)) = {} \<and>
              set (interior (discovered s ! i)) \<inter> set (interior (discovered s ! j)) = {}) \<and>
           (\<forall>c\<in>set (discovered s).
              degree (from_pandas_edgelist df) (origin c) \<noteq> 2 \<and>
              degree (from_pandas_edgelist df) (terminal c) \<noteq> 2 \<and>
              degree (from_pandas_edgelist df) (last (interior c)) = 2 \<and>
              last (interior c) \<in> set (adj (from_pandas_edgelist df) (terminal c)) \<and>
              sorted_pair (terminal c) (last (interior c)) \<in> set (chain_edges c) \<and>
              (\<forall>s'. set (chain_edges c) \<subseteq> visited_chains s' \<longrightarrow>
                 visit_neighbor (from_pandas_edgelist df) (terminal c) (last (interior c)) s' =
                   Some (Inr s'))) \<and>
           (\<forall>J\<in>set (nodes (from_pandas_edgelist df)).
              \<forall>N\<in>set (adj (from_pandas_edgelist df) J).
                degree (from_pandas_edgelist df) J \<noteq> 2 \<and>
                degree (from_pandas_edgelist df) N = 2 \<longrightarrow>
                (\<exists>!i. i < length (discovered s) \<and>
                   sorted_pair J N \<in> set (chain_edges (discovered s ! i))) \<and>
                (\<exists>c\<in>set (discovered s).
                   origin c = J \<and> hd (interior c) = N \<or>
                   terminal c = J \<and> last (interior c) = N))"
proof -
  define G where "G = from_pandas_edgelist df"
  have wf: "wf_graph G" unfolding G_def by (rule wf_from_pandas_edgelist)
  have sym: "\<And>u v. v \<in> set (adj G u) \<Longrightarrow> u \<in> set (adj G v)"
    using wf by (simp add: wf_graph_def)
  from assms have ord: "set order = set (critical_manholes G)"
    by (simp add: iteration_order_def G_def)
  then have "set order \<subseteq> set (critical_manholes G)" by simp
  from chain_pass_covers [OF wf this] obtain s :: "'a walk_state" where
    s: "chain_pass order G = Some (Inr s)" "pass_inv G s"
    and cov: "\<forall>j\<in>set order. \<forall>n\<in>set (adj G j).
                degree G n = 2 \<longrightarrow> sorted_pair j n \<in> visited_chains s"
    by (elim exE conjE)
  from s(2) have V: "visited_chains s = (\<Union>c\<in>set (discovered s). set (chain_edges c))"
    unfolding pass_inv_def by (elim conjE)
  from s(2) have valid: "\<forall>c\<in>set (discovered s). valid_chain G c"
    unfolding pass_inv_def by (elim conjE)
  from s(2) have ed: "edge_disjoint (discovered s)"
    unfolding pass_inv_def by (elim conjE)
  have D: "\<forall>i j. i < j \<and> j < length (discovered s) \<longrightarrow>
      set (chain_edges (discovered s ! i)) \<inter> set (chain_edges (discovered s ! j)) = {} \<and>
      set (interior (discovered s ! i)) \<inter> set (interior (discovered s ! j)) = {}"
  proof (intro allI impI)
    fix i j assume ij: "i < j \<and> j < length (discovered s)"
    with ed have e: "set (chain_edges (discovered s ! i)) \<inter> set (chain_edges (discovered s ! j)) = {}"
      unfolding edge_disjoint_def by (elim allE impE)
    from ij have "discovered s ! i \<in> set (discovered s)" "discovered s ! j \<in> set (discovered s)"
      by simp_all
    with valid have "valid_chain G (discovered s ! i)" "valid_chain G (discovered s ! j)"
      by simp_all
    from interiors_disjoint [OF wf this e] e
    show "set (chain_edges (discovered s ! i)) \<inter> set (chain_edges (discovered s ! j)) = {} \<and>
      set (interior (discovered s ! i)) \<inter> set (interior (discovered s ! j)) = {}" by simp
  qed
  have E: "\<forall>c\<in>set (discovered s).
      degree G (origin c) \<noteq> 2 \<and> degree G (terminal c) \<noteq> 2 \<and>
      degree G (last (interior c)) = 2 \<and>
      last (interior c) \<in> set (adj G (terminal c)) \<and>
      sorted_pair (terminal c) (last (interior c)) \<in> set (chain_edges c) \<and>
      (\<forall>s'. set (chain_edges c) \<subseteq> visited_chains s' \<longrightarrow>
         visit_neighbor G (terminal c) (last (interior c)) s' = Some (Inr s'))"
  proof
    fix c assume "c \<in> set (discovered s)"
    with valid have vc: "valid_chain G c" by simp
    then have ne: "interior c \<noteq> []" and dJ: "degree G (origin c) \<noteq> 2"
      and dT: "degree G (terminal c) \<noteq> 2"
      and d2: "\<forall>x\<in>set (interior c). degree G x = 2"
      and p: "is_path G (origin c # interior c @ [terminal c])"
      by (simp_all add: valid_chain_def)
    from ne d2 have dl: "degree G (last (interior c)) = 2" by simp
    from ne have "origin c # interior c @ [terminal c] =
        (origin c # butlast (interior c)) @ [last (interior c), terminal c]"
      by simp
    with p have "is_path G ((origin c # butlast (interior c)) @ [last (interior c), terminal c])"
      by simp
    then have "terminal c \<in> set (adj G (last (interior c)))" by (rule is_path_last_step)
    then have adj: "last (interior c) \<in> set (adj G (terminal c))" by (rule sym)
    have "sorted_pair (last (origin c # interior c)) (terminal c)
        \<in> set (path_edges ((origin c # interior c) @ [terminal c]))"
      by (rule boundary_edge_last) simp
    with ne have be: "sorted_pair (terminal c) (last (interior c)) \<in> set (chain_edges c)"
      by (simp add: chain_edges_def sorted_pair_commute)
    have "\<forall>s'. set (chain_edges c) \<subseteq> visited_chains s' \<longrightarrow>
         visit_neighbor G (terminal c) (last (interior c)) s' = Some (Inr s')"
    proof (intro allI impI)
      fix s' :: "'a walk_state" assume "set (chain_edges c) \<subseteq> visited_chains s'"
      with be have "sorted_pair (terminal c) (last (interior c)) \<in> visited_chains s'" by (rule subsetD [rotated])
      then show "visit_neighbor G (terminal c) (last (interior c)) s' = Some (Inr s')"
        by (rule visit_rejected)
    qed
    with dJ dT dl adj be show "degree G (origin c) \<noteq> 2 \<and> degree G (terminal c) \<noteq> 2 \<and>
      degree G (last (interior c)) = 2 \<and>
      last (interior c) \<in> set (adj G (terminal c)) \<and>
      sorted_pair (terminal c) (last (interior c)) \<in> set (chain_edges c) \<and>
      (\<forall>s'. set (chain_edges c) \<subseteq> visited_chains s' \<longrightarrow>
         visit_neighbor G (terminal c) (last (interior c)) s' = Some (Inr s'))"
      by (intro conjI)
  qed
  have F: "\<forall>J\<in>set (nodes G). \<forall>N\<in>set (adj G J).
      degree G J \<noteq> 2 \<and> degree G N = 2 \<longrightarrow>
      (\<exists>!i. i < length (discovered s) \<and> sorted_pair J N \<in> set (chain_edges (discovered s ! i))) \<and>
      (\<exists>c\<in>set (discovered s).
         origin c = J \<and> hd (interior c) = N \<or> terminal c = J \<and> last (interior c) = N)"
  proof (intro ballI impI)
    fix J N
    assume J: "J \<in> set (nodes G)" and N: "N \<in> set (adj G J)"
      and d: "degree G J \<noteq> 2 \<and> degree G N = 2"
    from J d have "J \<in> set order" by (simp add: ord critical_manholes_iff)
    with cov have "\<forall>n\<in>set (adj G J). degree G n = 2 \<longrightarrow> sorted_pair J n \<in> visited_chains s"
      by (rule bspec)
    from bspec [OF this N] d have "sorted_pair J N \<in> visited_chains s" by simp
    then obtain c where c: "c \<in> set (discovered s)" "sorted_pair J N \<in> set (chain_edges c)"
      unfolding V by (elim UN_E)
    then obtain i where i: "i < length (discovered s)" "discovered s ! i = c"
      by (auto simp: in_set_conv_nth)
    have uniq: "k = i" if k: "k < length (discovered s)"
      "sorted_pair J N \<in> set (chain_edges (discovered s ! k))" for k
    proof (rule ccontr)
      assume "k \<noteq> i"
      then consider "k < i" | "i < k" by linarith
      then have "set (chain_edges (discovered s ! k)) \<inter> set (chain_edges (discovered s ! i)) = {}"
      proof cases
        case 1
        with i(1) have "k < i \<and> i < length (discovered s)" by simp
        with ed show ?thesis unfolding edge_disjoint_def by (elim allE impE)
      next
        case 2
        with k(1) have "i < k \<and> k < length (discovered s)" by simp
        with ed have "set (chain_edges (discovered s ! i)) \<inter> set (chain_edges (discovered s ! k)) = {}"
          unfolding edge_disjoint_def by (elim allE impE)
        then show ?thesis by (simp add: Int_commute)
      qed
      with k(2) c(2) i(2) show False by auto
    qed
    have one: "\<exists>!i. i < length (discovered s) \<and> sorted_pair J N \<in> set (chain_edges (discovered s ! i))"
    proof (rule ex1I [of _ i])
      show "i < length (discovered s) \<and> sorted_pair J N \<in> set (chain_edges (discovered s ! i))"
        using i c(2) by simp
    next
      fix k assume "k < length (discovered s) \<and> sorted_pair J N \<in> set (chain_edges (discovered s ! k))"
      then show "k = i" using uniq by simp
    qed
    from valid c(1) have vc: "valid_chain G c" by (rule bspec)
    then have ne: "interior c \<noteq> []" and d2: "\<forall>x\<in>set (interior c). degree G x = 2"
      by (simp_all add: valid_chain_def)
    from d d2 have "J \<notin> set (interior c)" by auto
    with c(2) ne have "origin c = J \<and> hd (interior c) = N \<or> terminal c = J \<and> last (interior c) = N"
      unfolding chain_edges_def by (rule boundary_edge_ends)
    with c(1) have "\<exists>c\<in>set (discovered s).
        origin c = J \<and> hd (interior c) = N \<or> terminal c = J \<and> last (interior c) = N"
      by (rule bexI [rotated])
    with one show "(\<exists>!i. i < length (discovered s) \<and>
          sorted_pair J N \<in> set (chain_edges (discovered s ! i))) \<and>
      (\<exists>c\<in>set (discovered s).
         origin c = J \<and> hd (interior c) = N \<or> terminal c = J \<and> last (interior c) = N)"
      by (rule conjI)
  qed
  show ?thesis
    using s(1) V D E F unfolding G_def by (intro exI [of _ s] conjI)
qed

lemma select_rows_filter:
  "select_rows df (map P df) = filter P df"
  unfolding select_rows_def by (induction df) auto

lemma pipes_mask:
  "mask_and (isin (map start_node df) N) (isin (map stop_node df) N) =
     map (\<lambda>p. start_node p \<in> N \<and> stop_node p \<in> N) df"
  unfolding mask_and_def isin_def by (induction df) auto

text \<open>
  C4. The pipe table that \<open>main\<close> saves is the original pipe table restricted to the
  rows whose two endpoints are in the returned set: its rows are rows of the original
  table, in their order, and both endpoints of each are in the set.
\<close>

theorem filtered_pipes_from_original:
  fixes order :: "'a::linorder list" and pipes_df :: "('a, 'b) pipe list"
    and mh_df :: "('a, 'c) manhole list"
  assumes "iteration_order order pipes_df"
  shows "\<exists>necessary_mh out.
           identify_necessary_manholes order pipes_df = Some (Inr necessary_mh) \<and>
           main order pipes_df mh_df = Some (Inr out) \<and>
           simplified_pipes_df out =
             filter (\<lambda>p. start_node p \<in> necessary_mh \<and> stop_node p \<in> necessary_mh) pipes_df \<and>
           set (simplified_pipes_df out) \<subseteq> set pipes_df \<and>
           (\<forall>p\<in>set (simplified_pipes_df out).
              start_node p \<in> necessary_mh \<and> stop_node p \<in> necessary_mh)"
proof -
  from identify_characterised [OF assms] obtain N where
    N: "identify_necessary_manholes order pipes_df = Some (Inr N)" by blast
  define out :: "('a, 'b, 'c) saved_tables" where
    "out = \<lparr>simplified_mh_df = select_rows mh_df (isin (map label mh_df) N),
            simplified_pipes_df =
              filter (\<lambda>p. start_node p \<in> N \<and> stop_node p \<in> N) pipes_df\<rparr>"
  have m: "main order pipes_df mh_df = Some (Inr out)"
    by (simp add: main_def N out_def pipes_mask select_rows_filter)
  have f: "simplified_pipes_df out = filter (\<lambda>p. start_node p \<in> N \<and> stop_node p \<in> N) pipes_df"
    by (simp add: out_def)
  have sub: "set (simplified_pipes_df out) \<subseteq> set pipes_df"
    unfolding f by (rule filter_is_subset)
  have ends: "\<forall>p\<in>set (simplified_pipes_df out). start_node p \<in> N \<and> stop_node p \<in> N"
    unfolding f by simp
  show ?thesis
    using N m f sub ends by (intro exI [of _ N] exI [of _ out] conjI)
qed

lemma walk_chain_stop:
  "degree G cur \<noteq> 2 \<Longrightarrow> walk_chain G prev cur chain visited = Some (Inr (chain, prev, cur, visited))"
  by (subst walk_chain.simps) simp

lemma walk_chain_next:
  "degree G cur = 2 \<Longrightarrow> cur \<in> set (nodes G) \<Longrightarrow>
   filter (\<lambda>n. n \<noteq> prev) (adj G cur) = next_node # rest \<Longrightarrow>
   walk_chain G prev cur chain visited =
     walk_chain G cur next_node (chain @ [cur]) (insert (sorted_pair prev cur) visited)"
  by (subst walk_chain.simps) (simp add: neighbors_def)

lemmas pass_eval = chain_pass_def initial_state_def neighbors_def visit_neighbor_def degree_def
  sorted_pair_def walk_chain_stop walk_chain_next sample_chain_def

lemma branch_pass:
  "chain_pass [1, 6, 7, 8] (from_pandas_edgelist branch_pipes) =
     Some (Inr \<lparr>visited_chains = {(5, 6), (4, 5), (3, 4), (2, 3), (1, 2)},
                additional_mh = {2},
                discovered = [\<lparr>origin = 1, interior = [2, 3, 4, 5], terminal = 6\<rparr>]\<rparr>)"
  by (simp add: branch_graph pass_eval)

lemma branch_number_of_nodes: "number_of_nodes (from_pandas_edgelist branch_pipes) = 8"
  by (simp add: number_of_nodes_def branch_graph)

lemma branch_identify:
  "identify_necessary_manholes [1, 6, 7, 8] branch_pipes = Some (Inr {1, 2, 6, 7, 8})"
  by (auto simp: identify_necessary_manholes_def Let_def branch_pass branch_critical
      branch_number_of_nodes simp del: One_nat_def)

theorem filtered_pipes_from_original_witness:
  "iteration_order [1, 6, 7, 8] branch_pipes \<and>
   (\<exists>out. main [1, 6, 7, 8] branch_pipes (map manhole_row [1, 2, 3, 4, 5, 6, 7, 8]) = Some (Inr out) \<and>
      simplified_pipes_df out = [pipe_row 1 2, pipe_row 6 7, pipe_row 6 8])"
proof -
  from filtered_pipes_from_original [OF iteration_order_branch,
      of "map manhole_row [1, 2, 3, 4, 5, 6, 7, 8]"]
  obtain necessary_mh out where
    o: "identify_necessary_manholes [1, 6, 7, 8] branch_pipes = Some (Inr necessary_mh)"
       "main [1, 6, 7, 8] branch_pipes (map manhole_row [1, 2, 3, 4, 5, 6, 7, 8]) = Some (Inr out)"
       "simplified_pipes_df out =
          filter (\<lambda>p. start_node p \<in> necessary_mh \<and> stop_node p \<in> necessary_mh) branch_pipes"
    by (elim exE conjE)
  from o(1) have "necessary_mh = {1, 2, 6, 7, 8}"
    by (simp add: branch_identify del: One_nat_def)
  with o(3) have "simplified_pipes_df out = [pipe_row 1 2, pipe_row 6 7, pipe_row 6 8]"
    by (simp add: branch_pipes_def pipe_row_def)
  with o(2) iteration_order_branch show ?thesis by (intro conjI exI [of _ out])
qed

lemma worked_graph:
  "from_pandas_edgelist worked_pipes =
     \<lparr>nodes = [''J1'', ''A'', ''B'', ''C'', ''D'', ''E'', ''J2''],
      adj = (\<lambda>_. [])(''J1'' := [''A''], ''A'' := [''J1'', ''B''], ''B'' := [''A'', ''C''],
                           ''C'' := [''B'', ''D''], ''D'' := [''C'', ''E''],
                           ''E'' := [''D'', ''J2''], ''J2'' := [''E''])\<rparr>"
  by (simp add: worked_pipes_def graph_eval fun_upd_twist)

lemma worked_critical: "critical_manholes (from_pandas_edgelist worked_pipes) = [''J1'', ''J2'']"
  by (simp add: worked_graph critical_manholes_filter degree_def)

lemma worked_pass_J1:
  "chain_pass [''J1'', ''J2''] (from_pandas_edgelist worked_pipes) =
     Some (Inr \<lparr>visited_chains = {(''E'', ''J2''), (''D'', ''E''), (''C'', ''D''), (''B'', ''C''),
                                   (''A'', ''B''), (''A'', ''J1'')},
                additional_mh = {''E'', ''A''},
                discovered = [\<lparr>origin = ''J1'', interior = [''A'', ''B'', ''C'', ''D'', ''E''],
                                terminal = ''J2''\<rparr>]\<rparr>)"
  by (simp add: worked_graph pass_eval)

lemma worked_pass_J2:
  "chain_pass [''J2'', ''J1''] (from_pandas_edgelist worked_pipes) =
     Some (Inr \<lparr>visited_chains = {(''A'', ''J1''), (''A'', ''B''), (''B'', ''C''), (''C'', ''D''),
                                   (''D'', ''E''), (''E'', ''J2'')},
                additional_mh = {''A'', ''E''},
                discovered = [\<lparr>origin = ''J2'', interior = [''E'', ''D'', ''C'', ''B'', ''A''],
                                terminal = ''J1''\<rparr>]\<rparr>)"
  by (simp add: worked_graph pass_eval)

lemma two_orders:
  assumes "distinct xs" and "set xs = {a, b}" and "a \<noteq> b"
  shows "xs = [a, b] \<or> xs = [b, a]"
proof -
  from assms have "length xs = 2" by (metis distinct_card card_2_iff)
  then obtain x y where xy: "xs = [x, y]"
    by (cases xs; cases "tl xs") auto
  with assms show ?thesis by (auto simp: doubleton_eq_iff)
qed

lemma worked_number_of_nodes: "number_of_nodes (from_pandas_edgelist worked_pipes) = 7"
  by (simp add: number_of_nodes_def worked_graph)

lemma worked_identify_J1:
  "identify_necessary_manholes [''J1'', ''J2''] worked_pipes =
     Some (Inr {''J1'', ''J2'', ''A'', ''E''})"
  by (auto simp: identify_necessary_manholes_def Let_def worked_pass_J1 worked_critical
      worked_number_of_nodes)

lemma worked_identify_J2:
  "identify_necessary_manholes [''J2'', ''J1''] worked_pipes =
     Some (Inr {''J1'', ''J2'', ''A'', ''E''})"
  by (auto simp: identify_necessary_manholes_def Let_def worked_pass_J2 worked_critical
      worked_number_of_nodes)

lemma worked_filter:
  "filter (\<lambda>p. start_node p \<in> {''J1'', ''J2'', ''A'', ''E''} \<and>
                stop_node p \<in> {''J1'', ''J2'', ''A'', ''E''}) worked_pipes =
     [pipe_row ''J1'' ''A'', pipe_row ''E'' ''J2'']"
  by (simp add: worked_pipes_def pipe_row_def)

lemma main_pipes:
  "identify_necessary_manholes order pipes_df = Some (Inr N) \<Longrightarrow>
   \<exists>out. main order pipes_df mh_df = Some (Inr out) \<and>
     simplified_pipes_df out = filter (\<lambda>p. start_node p \<in> N \<and> stop_node p \<in> N) pipes_df"
  by (simp add: main_def pipes_mask select_rows_filter)

text \<open>
  C5, amended. On the linear path J1 - A - B - C - D - E - J2 one chain is discovered: its
  interior is [A, B, C, D, E] when the loop finds J1 first, and [E, D, C, B, A], the same
  five nodes read from J2, when it finds J2 first; in both orders the sampled nodes are A
  and E, the returned set is {J1, J2, A, E}, and the saved pipe table holds the rows
  (J1, A) and (E, J2) only.
\<close>

theorem worked_example:
  fixes mh_df :: "(string, 'c) manhole list"
  shows
  "chain_pass [''J1'', ''J2''] (from_pandas_edgelist worked_pipes) =
     Some (Inr \<lparr>visited_chains = {(''E'', ''J2''), (''D'', ''E''), (''C'', ''D''), (''B'', ''C''),
                                   (''A'', ''B''), (''A'', ''J1'')},
                additional_mh = {''E'', ''A''},
                discovered = [\<lparr>origin = ''J1'', interior = [''A'', ''B'', ''C'', ''D'', ''E''],
                                terminal = ''J2''\<rparr>]\<rparr>) \<and>
   chain_pass [''J2'', ''J1''] (from_pandas_edgelist worked_pipes) =
     Some (Inr \<lparr>visited_chains = {(''A'', ''J1''), (''A'', ''B''), (''B'', ''C''), (''C'', ''D''),
                                   (''D'', ''E''), (''E'', ''J2'')},
                additional_mh = {''A'', ''E''},
                discovered = [\<lparr>origin = ''J2'', interior = [''E'', ''D'', ''C'', ''B'', ''A''],
                                terminal = ''J1''\<rparr>]\<rparr>) \<and>
   length [''A'', ''B'', ''C'', ''D'', ''E''] = 5 \<and>
   sample_chain [''A'', ''B'', ''C'', ''D'', ''E''] {} = {''A'', ''E''} \<and>
   (\<forall>order. iteration_order order worked_pipes \<longrightarrow>
      (order = [''J1'', ''J2''] \<or> order = [''J2'', ''J1'']) \<and>
      identify_necessary_manholes order worked_pipes =
        Some (Inr {''J1'', ''J2'', ''A'', ''E''}) \<and>
      (\<exists>out. main order worked_pipes mh_df = Some (Inr out) \<and>
         simplified_pipes_df out = [pipe_row ''J1'' ''A'', pipe_row ''E'' ''J2'']))"
proof (intro conjI allI impI)
  show "sample_chain [''A'', ''B'', ''C'', ''D'', ''E''] {} = {''A'', ''E''}"
    by (auto simp: sample_chain_def)
next
  fix order :: "string list"
  assume "iteration_order order worked_pipes"
  then have "distinct order" "set order = {''J1'', ''J2''}"
    by (simp_all add: iteration_order_def worked_critical)
  then show "order = [''J1'', ''J2''] \<or> order = [''J2'', ''J1'']"
    by (rule two_orders) simp
  then show "identify_necessary_manholes order worked_pipes =
      Some (Inr {''J1'', ''J2'', ''A'', ''E''})"
    using worked_identify_J1 worked_identify_J2 by (elim disjE) simp_all
  from main_pipes [OF this, of mh_df]
  show "\<exists>out. main order worked_pipes mh_df = Some (Inr out) \<and>
      simplified_pipes_df out = [pipe_row ''J1'' ''A'', pipe_row ''E'' ''J2'']"
    by (simp only: worked_filter)
qed (rule worked_pass_J1, rule worked_pass_J2, simp)

theorem worked_example_witness:
  "iteration_order [''J1'', ''J2''] worked_pipes \<and>
   identify_necessary_manholes [''J1'', ''J2''] worked_pipes =
     Some (Inr {''J1'', ''J2'', ''A'', ''E''}) \<and>
   (\<exists>out. main [''J1'', ''J2''] worked_pipes ([] :: (string, unit) manhole list) = Some (Inr out) \<and>
      simplified_pipes_df out = [pipe_row ''J1'' ''A'', pipe_row ''E'' ''J2''])"
proof -
  have h: "iteration_order [''J1'', ''J2''] worked_pipes"
    by (simp add: iteration_order_def worked_critical)
  from worked_example [of "[]"] have
    "iteration_order [''J1'', ''J2''] worked_pipes \<longrightarrow>
      ([''J1'', ''J2''] = [''J1'', ''J2''] \<or> [''J1'', ''J2''] = [''J2'', ''J1'']) \<and>
      identify_necessary_manholes [''J1'', ''J2''] worked_pipes =
        Some (Inr {''J1'', ''J2'', ''A'', ''E''}) \<and>
      (\<exists>out. main [''J1'', ''J2''] worked_pipes ([] :: (string, unit) manhole list) = Some (Inr out) \<and>
         simplified_pipes_df out = [pipe_row ''J1'' ''A'', pipe_row ''E'' ''J2''])"
    by (elim conjE allE)
  with h show ?thesis by (intro conjI) simp_all
qed

lemma adj_foldl_add_edge:
  "y \<in> set (adj (foldl (\<lambda>H (u, v). add_edge u v H) G es) x) \<longleftrightarrow>
     y \<in> set (adj G x) \<or> (x, y) \<in> set es \<or> (y, x) \<in> set es"
proof (induction es arbitrary: G)
  case Nil
  then show ?case by simp
next
  case (Cons e es)
  obtain u v where e: "e = (u, v)" by (cases e)
  have "y \<in> set (adj (add_edge u v G) x) \<longleftrightarrow>
      y \<in> set (adj G x) \<or> (x, y) = (u, v) \<or> (y, x) = (u, v)"
    by (auto simp: adj_add_edge split: if_splits)
  then show ?case
    by (auto simp: e Cons.IH)
qed

lemma rows_joined:
  assumes "p \<in> set df"
  shows "stop_node p \<in> set (adj (from_pandas_edgelist df) (start_node p)) \<and>
         start_node p \<in> set (adj (from_pandas_edgelist df) (stop_node p))"
proof -
  have "(start_node p, stop_node p) \<in> set (zip (map start_node df) (map stop_node df))"
    using assms by (auto simp: zip_columns)
  then show ?thesis
    unfolding from_pandas_edgelist_def add_edges_from_def adj_foldl_add_edge
    by simp
qed

lemma malformed_graph:
  "from_pandas_edgelist malformed_pipes =
     \<lparr>nodes = [Num 2, NaN 0, Num 4, NaN 1, Num 3],
      adj = (\<lambda>_. [])(Num 2 := [NaN 0, Num 3], NaN 0 := [Num 2], Num 4 := [NaN 1],
                           NaN 1 := [Num 4], Num 3 := [Num 2])\<rparr>"
  by (simp add: malformed_pipes_def graph_eval fun_upd_twist)

lemma malformed_filtered_graph:
  "from_pandas_edgelist (filter well_formed_row malformed_pipes) =
     \<lparr>nodes = [Num 2, Num 3], adj = (\<lambda>_. [])(Num 2 := [Num 3], Num 3 := [Num 2])\<rparr>"
  by (simp add: malformed_pipes_def well_formed_row_def graph_eval fun_upd_twist)

text \<open>
  C8, as the specification states it, fails: the two rows with a missing endpoint are not
  rejected; each missing cell becomes a node of its own, joined to the other endpoint of
  its row.
\<close>

theorem malformed_row_counterexample:
  "from_pandas_edgelist malformed_pipes \<noteq>
     from_pandas_edgelist (filter well_formed_row malformed_pipes) \<and>
   nodes (from_pandas_edgelist malformed_pipes) = [Num 2, NaN 0, Num 4, NaN 1, Num 3] \<and>
   nodes (from_pandas_edgelist (filter well_formed_row malformed_pipes)) = [Num 2, Num 3] \<and>
   adj (from_pandas_edgelist malformed_pipes) (Num 2) = [NaN 0, Num 3] \<and>
   adj (from_pandas_edgelist malformed_pipes) (NaN 0) = [Num 2] \<and>
   adj (from_pandas_edgelist malformed_pipes) (NaN 1) = [Num 4] \<and>
   adj (from_pandas_edgelist malformed_pipes) (Num 4) = [NaN 1] \<and>
   adj (from_pandas_edgelist (filter well_formed_row malformed_pipes)) (Num 2) = [Num 3]"
  by (simp add: malformed_graph malformed_filtered_graph)

text \<open>
  C8, amended. The build rejects no row: every endpoint of every row, a missing value
  included, is a node of the built graph; the two endpoints of every row, malformed or
  not, are neighbours of each other; and the built graph is the graph of the well-formed
  rows exactly when every row is well formed.
\<close>

theorem build_takes_every_row:
  fixes df :: "(label, 'b) pipe list"
  shows "set (nodes (from_pandas_edgelist df)) = start_node ` set df \<union> stop_node ` set df \<and>
         (\<forall>p\<in>set df.
            stop_node p \<in> set (adj (from_pandas_edgelist df) (start_node p)) \<and>
            start_node p \<in> set (adj (from_pandas_edgelist df) (stop_node p))) \<and>
         (from_pandas_edgelist df = from_pandas_edgelist (filter well_formed_row df)
            \<longleftrightarrow> (\<forall>p\<in>set df. well_formed_row p))"
proof (intro conjI)
  show "set (nodes (from_pandas_edgelist df)) = start_node ` set df \<union> stop_node ` set df"
    by (rule nodes_from_pandas_edgelist)
  show "\<forall>p\<in>set df.
      stop_node p \<in> set (adj (from_pandas_edgelist df) (start_node p)) \<and>
      start_node p \<in> set (adj (from_pandas_edgelist df) (stop_node p))"
    by (rule ballI) (rule rows_joined)
  show "from_pandas_edgelist df = from_pandas_edgelist (filter well_formed_row df)
          \<longleftrightarrow> (\<forall>p\<in>set df. well_formed_row p)"
  proof
    assume eq: "from_pandas_edgelist df = from_pandas_edgelist (filter well_formed_row df)"
    show "\<forall>p\<in>set df. well_formed_row p"
    proof (rule ccontr)
      assume "\<not> (\<forall>p\<in>set df. well_formed_row p)"
      then obtain p where p: "p \<in> set df" "is_nan (start_node p) \<or> is_nan (stop_node p)"
        by (auto simp: well_formed_row_def)
      then obtain x where x: "is_nan x" "x \<in> set (nodes (from_pandas_edgelist df))"
        unfolding nodes_from_pandas_edgelist by (metis UnI1 UnI2 imageI)
      with eq have "x \<in> set (nodes (from_pandas_edgelist (filter well_formed_row df)))"
        by simp
      with x(1) show False
        unfolding nodes_from_pandas_edgelist by (auto simp: well_formed_row_def)
    qed
  next
    assume "\<forall>p\<in>set df. well_formed_row p"
    then have "filter well_formed_row df = df" by simp
    then show "from_pandas_edgelist df = from_pandas_edgelist (filter well_formed_row df)"
      by simp
  qed
qed

theorem build_takes_every_row_witness:
  "pipe_row (Num 4) (NaN 1) \<in> set malformed_pipes \<and>
   NaN 0 \<in> set (nodes (from_pandas_edgelist malformed_pipes)) \<and>
   NaN 1 \<in> set (nodes (from_pandas_edgelist malformed_pipes)) \<and>
   NaN 1 \<in> set (adj (from_pandas_edgelist malformed_pipes) (Num 4)) \<and>
   Num 4 \<in> set (adj (from_pandas_edgelist malformed_pipes) (NaN 1)) \<and>
   from_pandas_edgelist malformed_pipes \<noteq>
     from_pandas_edgelist (filter well_formed_row malformed_pipes)"
proof -
  have r: "pipe_row (Num 4) (NaN 1) \<in> set malformed_pipes"
    by (simp add: malformed_pipes_def)
  have "\<not> (\<forall>p\<in>set malformed_pipes. well_formed_row p)"
    by (simp add: malformed_pipes_def well_formed_row_def pipe_row_def)
  moreover have "NaN 0 \<in> start_node ` set malformed_pipes \<union> stop_node ` set malformed_pipes"
    and "NaN 1 \<in> start_node ` set malformed_pipes \<union> stop_node ` set malformed_pipes"
    by (simp_all add: malformed_pipes_def pipe_row_def)
  moreover from build_takes_every_row [of malformed_pipes] r
  have "stop_node (pipe_row (Num 4) (NaN 1))
          \<in> set (adj (from_pandas_edgelist malformed_pipes) (start_node (pipe_row (Num 4) (NaN 1)))) \<and>
        start_node (pipe_row (Num 4) (NaN 1))
          \<in> set (adj (from_pandas_edgelist malformed_pipes) (stop_node (pipe_row (Num 4) (NaN 1))))"
    by (elim conjE) (rule bspec)
  ultimately show ?thesis
    using build_takes_every_row [of malformed_pipes] r by (simp add: pipe_row_def)
qed

lemma lone_graph:
  "from_pandas_edgelist lone_pipes = \<lparr>nodes = [2, 3], adj = (\<lambda>_. [])(2 := [3], 3 := [2])\<rparr>"
  by (simp add: lone_pipes_def graph_eval fun_upd_twist)

lemma lone_critical: "critical_manholes (from_pandas_edgelist lone_pipes) = [2, 3]"
  by (simp add: lone_graph critical_manholes_filter degree_def)

lemma iteration_order_lone: "iteration_order [2, 3] lone_pipes"
  by (simp add: iteration_order_def lone_critical)

lemma lone_pass:
  "chain_pass [2, 3] (from_pandas_edgelist lone_pipes) = Some (Inr initial_state)"
  by (simp add: lone_graph pass_eval)

lemma lone_identify: "identify_necessary_manholes [2, 3] lone_pipes = Some (Inr {2, 3})"
  by (simp add: identify_necessary_manholes_def Let_def lone_pass lone_critical
      number_of_nodes_def initial_state_def)
     (simp add: lone_graph)

lemma degree_positive:
  "wf_graph G \<Longrightarrow> n \<in> set (nodes G) \<Longrightarrow> 1 \<le> degree G n"
  by (cases "adj G n") (auto simp: wf_graph_def degree_def)

lemma degree_outside:
  "wf_graph G \<Longrightarrow> n \<notin> set (nodes G) \<Longrightarrow> degree G n = 0"
  by (auto simp: wf_graph_def degree_def)

lemma identify_bounds:
  fixes order :: "'a::linorder list"
  assumes "iteration_order order df"
  shows "\<exists>N. identify_necessary_manholes order df = Some (Inr N) \<and>
           {n \<in> set (nodes (from_pandas_edgelist df)). degree (from_pandas_edgelist df) n \<noteq> 2}
             \<subseteq> N \<and>
           N \<subseteq> set (nodes (from_pandas_edgelist df))"
proof -
  define G where "G = from_pandas_edgelist df"
  have wf: "wf_graph G" unfolding G_def by (rule wf_from_pandas_edgelist)
  from identify_characterised [OF assms] obtain s :: "'a walk_state" where
    s: "pass_inv G s"
       "identify_necessary_manholes order df =
          Some (Inr (set (critical_manholes G) \<union> additional_mh s))"
    unfolding G_def by blast
  have "additional_mh s \<subseteq> set (nodes G)"
  proof
    fix x assume "x \<in> additional_mh s"
    with additional_path_nodes [OF s(1)] have "degree G x = 2" by blast
    with wf show "x \<in> set (nodes G)" by (rule degree_two_node)
  qed
  then have "{n \<in> set (nodes G). degree G n \<noteq> 2} \<subseteq> set (critical_manholes G) \<union> additional_mh s"
    and "set (critical_manholes G) \<union> additional_mh s \<subseteq> set (nodes G)"
    by (auto simp: critical_manholes_iff)
  with s(2) show ?thesis unfolding G_def by blast
qed

text \<open>
  C9, as the specification states it, fails: manhole 4 of the manhole table has no pipe;
  it is not in the returned set and not in the saved manhole table.
\<close>

theorem isolated_manhole_counterexample:
  "identify_necessary_manholes [2, 3] lone_pipes = Some (Inr {2, 3}) \<and>
   manhole_row 4 \<in> set lone_manholes \<and>
   4 \<notin> start_node ` set lone_pipes \<union> stop_node ` set lone_pipes \<and>
   degree (from_pandas_edgelist lone_pipes) 4 = 0 \<and>
   4 \<notin> {2, 3 :: nat} \<and>
   main [2, 3] lone_pipes lone_manholes =
     Some (Inr \<lparr>simplified_mh_df = [manhole_row 2, manhole_row 3],
                simplified_pipes_df = [pipe_row 2 3]\<rparr>)"
  by (simp add: lone_identify main_def lone_manholes_def manhole_row_def isin_def
      select_rows_def mask_and_def)
     (simp add: lone_pipes_def pipe_row_def lone_graph [unfolded lone_pipes_def pipe_row_def]
        degree_def)

text \<open>
  C9, amended. A node of degree other than 2 is in the returned set, and degree 0 would
  count as such; but the graph is built from the pipe rows alone, so each of its nodes has
  degree at least 1, and a label that is no endpoint of a pipe row is not a node, is not
  in the returned set, and its rows are not in the saved manhole table.
\<close>

theorem isolated_manhole_not_retained:
  fixes order :: "'a::linorder list" and df :: "('a, 'b) pipe list"
    and mh_df :: "('a, 'c) manhole list"
  assumes "iteration_order order df"
  shows "\<exists>necessary_mh out.
           identify_necessary_manholes order df = Some (Inr necessary_mh) \<and>
           main order df mh_df = Some (Inr out) \<and>
           {n \<in> set (nodes (from_pandas_edgelist df)). degree (from_pandas_edgelist df) n \<noteq> 2}
             \<subseteq> necessary_mh \<and>
           (\<forall>n\<in>set (nodes (from_pandas_edgelist df)). 1 \<le> degree (from_pandas_edgelist df) n) \<and>
           (\<forall>m. m \<notin> start_node ` set df \<union> stop_node ` set df \<longrightarrow>
              degree (from_pandas_edgelist df) m = 0 \<and> m \<notin> necessary_mh \<and>
              (\<forall>r\<in>set (simplified_mh_df out). label r \<noteq> m))"
proof -
  define G where "G = from_pandas_edgelist df"
  have wf: "wf_graph G" unfolding G_def by (rule wf_from_pandas_edgelist)
  have nodes: "set (nodes G) = start_node ` set df \<union> stop_node ` set df"
    unfolding G_def by (rule nodes_from_pandas_edgelist)
  from identify_bounds [OF assms] obtain N where
    N: "identify_necessary_manholes order df = Some (Inr N)"
       "{n \<in> set (nodes G). degree G n \<noteq> 2} \<subseteq> N" "N \<subseteq> set (nodes G)"
    unfolding G_def by blast
  define out :: "('a, 'b, 'c) saved_tables" where
    "out = \<lparr>simplified_mh_df = filter (\<lambda>r. label r \<in> N) mh_df,
            simplified_pipes_df =
              filter (\<lambda>p. start_node p \<in> N \<and> stop_node p \<in> N) df\<rparr>"
  have mh: "isin (map label mh_df) N = map (\<lambda>r. label r \<in> N) mh_df"
    by (simp add: isin_def)
  have m: "main order df mh_df = Some (Inr out)"
    by (simp add: main_def N(1) out_def pipes_mask mh select_rows_filter)
  have pos: "\<forall>n\<in>set (nodes G). 1 \<le> degree G n"
    using degree_positive [OF wf] by blast
  have out: "\<forall>m. m \<notin> start_node ` set df \<union> stop_node ` set df \<longrightarrow>
      degree G m = 0 \<and> m \<notin> N \<and> (\<forall>r\<in>set (simplified_mh_df out). label r \<noteq> m)"
  proof (intro allI impI)
    fix m assume "m \<notin> start_node ` set df \<union> stop_node ` set df"
    then have mn: "m \<notin> set (nodes G)" unfolding nodes .
    with wf have "degree G m = 0" by (rule degree_outside)
    moreover from mn N(3) have "m \<notin> N" by auto
    moreover from this have "\<forall>r\<in>set (simplified_mh_df out). label r \<noteq> m"
      by (auto simp: out_def)
    ultimately show "degree G m = 0 \<and> m \<notin> N \<and> (\<forall>r\<in>set (simplified_mh_df out). label r \<noteq> m)"
      by (intro conjI)
  qed
  show ?thesis
    using N(1) m N(2) pos out unfolding G_def by (intro exI [of _ N] exI [of _ out] conjI)
qed

theorem isolated_manhole_not_retained_witness:
  "iteration_order [2, 3] lone_pipes \<and>
   4 \<notin> start_node ` set lone_pipes \<union> stop_node ` set lone_pipes \<and>
   (\<exists>necessary_mh out.
      identify_necessary_manholes [2, 3] lone_pipes = Some (Inr necessary_mh) \<and>
      main [2, 3] lone_pipes lone_manholes = Some (Inr out) \<and>
      4 \<notin> necessary_mh \<and> manhole_row 4 \<notin> set (simplified_mh_df out))"
proof -
  have h: "4 \<notin> start_node ` set lone_pipes \<union> stop_node ` set lone_pipes"
    by (simp add: lone_pipes_def pipe_row_def)
  from isolated_manhole_not_retained [OF iteration_order_lone, of lone_manholes]
  obtain necessary_mh out where
    o: "identify_necessary_manholes [2, 3] lone_pipes = Some (Inr necessary_mh)"
       "main [2, 3] lone_pipes lone_manholes = Some (Inr out)"
       "\<forall>m. m \<notin> start_node ` set lone_pipes \<union> stop_node ` set lone_pipes \<longrightarrow>
          degree (from_pandas_edgelist lone_pipes) m = 0 \<and> m \<notin> necessary_mh \<and>
          (\<forall>r\<in>set (simplified_mh_df out). label r \<noteq> m)"
    by (elim exE conjE)
  from o(3) h have "4 \<notin> necessary_mh" and "\<forall>r\<in>set (simplified_mh_df out). label r \<noteq> 4"
    by blast+
  then have "4 \<notin> necessary_mh" and "manhole_row 4 \<notin> set (simplified_mh_df out)"
    by (auto simp: manhole_row_def)
  with o(1,2) iteration_order_lone h show ?thesis
    by (intro conjI exI [of _ necessary_mh] exI [of _ out])
qed

subsection \<open>Runs on Python's own label values\<close>

lemma walk_chain_py_stop:
  "degree G cur \<noteq> 2 \<Longrightarrow>
   walk_chain_py G prev cur chain visited = Some (Inr (chain, prev, cur, visited))"
  by (subst walk_chain_py.simps) simp

lemma walk_chain_py_raise:
  "degree G cur = 2 \<Longrightarrow> sorted_pair_py prev cur = Inl e \<Longrightarrow>
   walk_chain_py G prev cur chain visited = Some (Inl e)"
  by (subst walk_chain_py.simps) simp

lemma walk_chain_py_next:
  "degree G cur = 2 \<Longrightarrow> sorted_pair_py prev cur = Inr edge \<Longrightarrow> cur \<in> set (nodes G) \<Longrightarrow>
   filter (\<lambda>n. py_ne n prev) (adj G cur) = next_node # rest \<Longrightarrow>
   walk_chain_py G prev cur chain visited =
     walk_chain_py G cur next_node (chain @ [cur]) (insert edge visited)"
  by (subst walk_chain_py.simps) (simp add: neighbors_def)

lemmas pass_eval_py = chain_pass_py_def initial_state_def neighbors_def visit_neighbor_py_def
  degree_def sorted_pair_py_def walk_chain_py_stop walk_chain_py_raise walk_chain_py_next
  sample_chain_def









lemma number_nan_graph:
  "from_pandas_edgelist number_nan_pipes =
     \<lparr>nodes = [Num 2, NaN 0, Num 3],
      adj = (\<lambda>_. [])(Num 2 := [NaN 0, Num 3], NaN 0 := [Num 2], Num 3 := [Num 2])\<rparr>"
  by (simp add: number_nan_pipes_def graph_eval fun_upd_twist)

lemma number_nan_critical:
  "critical_manholes (from_pandas_edgelist number_nan_pipes) = [NaN 0, Num 3]"
  by (simp add: number_nan_graph critical_manholes_filter degree_def)

lemma number_nan_pass_1:
  "chain_pass_py [NaN 0, Num 3] (from_pandas_edgelist number_nan_pipes) =
     Some (Inr \<lparr>visited_chains = {(Num 2, Num 3), (Num 2, NaN 0), (NaN 0, Num 2)},
                additional_mh = {Num 2},
                discovered = [\<lparr>origin = NaN 0, interior = [Num 2], terminal = NaN 0\<rparr>,
                              \<lparr>origin = Num 3, interior = [Num 2], terminal = NaN 0\<rparr>]\<rparr>)"
  by (simp add: number_nan_graph pass_eval_py) auto

lemma number_nan_pass_2:
  "chain_pass_py [Num 3, NaN 0] (from_pandas_edgelist number_nan_pipes) =
     Some (Inr \<lparr>visited_chains = {(NaN 0, Num 2), (Num 2, NaN 0), (Num 2, Num 3)},
                additional_mh = {Num 2},
                discovered = [\<lparr>origin = Num 3, interior = [Num 2], terminal = NaN 0\<rparr>,
                              \<lparr>origin = NaN 0, interior = [Num 2], terminal = NaN 0\<rparr>]\<rparr>)"
  by (simp add: number_nan_graph pass_eval_py) auto

theorem each_edge_in_one_chain_witness:
  "iteration_order [1, 6, 7, 8] branch_pipes \<and>
   6 \<in> set (nodes (from_pandas_edgelist branch_pipes)) \<and>
   5 \<in> set (adj (from_pandas_edgelist branch_pipes) 6) \<and>
   degree (from_pandas_edgelist branch_pipes) 6 = 3 \<and>
   degree (from_pandas_edgelist branch_pipes) 5 = 2 \<and>
   (\<exists>s. chain_pass [1, 6, 7, 8] (from_pandas_edgelist branch_pipes) = Some (Inr s) \<and>
      discovered s = [\<lparr>origin = 1, interior = [2, 3, 4, 5], terminal = 6\<rparr>] \<and>
      (\<exists>!i. i < length (discovered s) \<and>
         sorted_pair 6 5 \<in> set (chain_edges (discovered s ! i))))"
proof -
  have g: "6 \<in> set (nodes (from_pandas_edgelist branch_pipes))"
    "5 \<in> set (adj (from_pandas_edgelist branch_pipes) 6)"
    "degree (from_pandas_edgelist branch_pipes) 6 = 3"
    "degree (from_pandas_edgelist branch_pipes) 5 = 2"
    by (simp_all add: branch_graph degree_def)
  from each_edge_in_one_chain [OF iteration_order_branch] obtain s where
    s: "chain_pass [1, 6, 7, 8] (from_pandas_edgelist branch_pipes) = Some (Inr s)"
    and F: "\<forall>J\<in>set (nodes (from_pandas_edgelist branch_pipes)).
              \<forall>N\<in>set (adj (from_pandas_edgelist branch_pipes) J).
                degree (from_pandas_edgelist branch_pipes) J \<noteq> 2 \<and>
                degree (from_pandas_edgelist branch_pipes) N = 2 \<longrightarrow>
                (\<exists>!i. i < length (discovered s) \<and>
                   sorted_pair J N \<in> set (chain_edges (discovered s ! i))) \<and>
                (\<exists>c\<in>set (discovered s).
                   origin c = J \<and> hd (interior c) = N \<or>
                   terminal c = J \<and> last (interior c) = N)"
    by (elim exE conjE)
  from bspec [OF bspec [OF F g(1)] g(2)] g(3,4)
  have one: "\<exists>!i. i < length (discovered s) \<and>
      sorted_pair 6 5 \<in> set (chain_edges (discovered s ! i))"
    by simp
  from s have d: "discovered s = [\<lparr>origin = 1, interior = [2, 3, 4, 5], terminal = 6\<rparr>]"
    by (auto simp: branch_pass simp del: One_nat_def)
  from iteration_order_branch g s d one show ?thesis
    by (intro conjI exI [of _ s])
qed

text \<open>
  C1, as the specification states it, fails on a table with a missing cell. In the run
  nan - 2 - 3 the chain [2] lies between the critical manholes nan and 3; it is walked
  from both of them, whichever the loop finds first, and the edge between 2 and nan is
  recorded under two keys, once by each walk: from nan the walk turns back to nan, since
  \<open>n != prev\<close> holds of nan itself.
\<close>

theorem chain_walked_twice_counterexample:
  "iteration_order [NaN 0, Num 3] number_nan_pipes \<and>
   degree (from_pandas_edgelist number_nan_pipes) (NaN 0) = 1 \<and>
   degree (from_pandas_edgelist number_nan_pipes) (Num 2) = 2 \<and>
   degree (from_pandas_edgelist number_nan_pipes) (Num 3) = 1 \<and>
   chain_pass_py [NaN 0, Num 3] (from_pandas_edgelist number_nan_pipes) =
     Some (Inr \<lparr>visited_chains = {(Num 2, Num 3), (Num 2, NaN 0), (NaN 0, Num 2)},
                additional_mh = {Num 2},
                discovered = [\<lparr>origin = NaN 0, interior = [Num 2], terminal = NaN 0\<rparr>,
                              \<lparr>origin = Num 3, interior = [Num 2], terminal = NaN 0\<rparr>]\<rparr>) \<and>
   chain_pass_py [Num 3, NaN 0] (from_pandas_edgelist number_nan_pipes) =
     Some (Inr \<lparr>visited_chains = {(NaN 0, Num 2), (Num 2, NaN 0), (Num 2, Num 3)},
                additional_mh = {Num 2},
                discovered = [\<lparr>origin = Num 3, interior = [Num 2], terminal = NaN 0\<rparr>,
                              \<lparr>origin = NaN 0, interior = [Num 2], terminal = NaN 0\<rparr>]\<rparr>)"
proof (intro conjI)
  show "iteration_order [NaN 0, Num 3] number_nan_pipes"
    by (simp add: iteration_order_def number_nan_critical)
qed (simp_all add: number_nan_pass_1 number_nan_pass_2, simp_all add: number_nan_graph degree_def)


text \<open>
  C5, as the specification states it, fails when the loop finds J2 before J1: the chain is
  then walked from J2 and its interior is [E, D, C, B, A].
\<close>

theorem worked_example_counterexample:
  "iteration_order [''J2'', ''J1''] worked_pipes \<and>
   chain_pass [''J2'', ''J1''] (from_pandas_edgelist worked_pipes) =
     Some (Inr \<lparr>visited_chains = {(''A'', ''J1''), (''A'', ''B''), (''B'', ''C''), (''C'', ''D''),
                                   (''D'', ''E''), (''E'', ''J2'')},
                additional_mh = {''A'', ''E''},
                discovered = [\<lparr>origin = ''J2'', interior = [''E'', ''D'', ''C'', ''B'', ''A''],
                                terminal = ''J1''\<rparr>]\<rparr>) \<and>
   [''E'', ''D'', ''C'', ''B'', ''A''] \<noteq> [''A'', ''B'', ''C'', ''D'', ''E'']"
  by (simp add: iteration_order_def worked_critical worked_pass_J2) auto

subsection \<open>The two models agree on tables of one ordered type\<close>



lemma graph_rel_empty: "graph_rel f empty_graph empty_graph"
  by (simp add: graph_rel_def empty_graph_def)

lemma graph_rel_add_edge:
  assumes "inj f" and "graph_rel f G G'"
  shows "graph_rel f (add_edge u v G) (add_edge (f u) (f v) G')"
proof -
  have eq: "f a = f b \<longleftrightarrow> a = b" for a b using assms(1) by (auto dest: injD)
  have mem: "f a \<in> f ` A \<longleftrightarrow> a \<in> A" for a A using assms(1) by (auto dest: injD)
  from assms(2) show ?thesis
    unfolding graph_rel_def add_edge_def set_adj_def add_node_def
    by (auto simp: eq mem)
qed

lemma graph_rel_foldl:
  assumes "inj f"
  shows "graph_rel f G G' \<Longrightarrow>
     graph_rel f (foldl (\<lambda>H (u, v). add_edge u v H) G es)
       (foldl (\<lambda>H (u, v). add_edge u v H) G' (map (map_prod f f) es))"
proof (induction es arbitrary: G G')
  case Nil
  then show ?case by simp
next
  case (Cons e es)
  obtain u v where e: "e = (u, v)" by (cases e)
  from graph_rel_add_edge [OF assms Cons.prems, of u v]
  show ?case by (simp add: e Cons.IH)
qed

lemma graph_rel_build:
  assumes "inj f"
  shows "graph_rel f (from_pandas_edgelist df) (from_pandas_edgelist (map (relabel f) df))"
proof -
  have "zip (map start_node (map (relabel f) df)) (map stop_node (map (relabel f) df)) =
      map (map_prod f f) (zip (map start_node df) (map stop_node df))"
    by (simp add: zip_columns relabel_def comp_def)
  then show ?thesis
    unfolding from_pandas_edgelist_def add_edges_from_def
    using graph_rel_foldl [OF assms graph_rel_empty] by simp
qed

lemma degree_rel:
  assumes "inj f" and "graph_rel f G G'"
  shows "degree G' (f x) = degree G x"
proof -
  have "f x \<in> f ` set (adj G x) \<longleftrightarrow> x \<in> set (adj G x)" using assms(1) by (auto dest: injD)
  with assms(2) show ?thesis by (simp add: degree_def graph_rel_def)
qed

lemma neighbors_rel:
  assumes "inj f" and "graph_rel f G G'"
  shows "neighbors G' (f x) = map_sum id (map f) (neighbors G x)"
proof -
  have "f x \<in> f ` set (nodes G) \<longleftrightarrow> x \<in> set (nodes G)" using assms(1) by (auto dest: injD)
  with assms(2) show ?thesis by (simp add: neighbors_def graph_rel_def)
qed


lemma sorted_pair_rel:
  "embeds f \<Longrightarrow> sorted_pair_py (f a) (f b) = Inr (map_prod f f (sorted_pair a b))"
  by (simp add: embeds_def sorted_pair_py_def sorted_pair_def)

lemma filter_rel:
  "embeds f \<Longrightarrow> filter (\<lambda>n. py_ne n (f prev)) (map f nbrs) = map f (filter (\<lambda>n. n \<noteq> prev) nbrs)"
  by (simp add: embeds_def filter_map comp_def)

lemma walk_refines:
  assumes emb: "embeds f" and run: "walk_chain G prev cur chain V = Some r"
    and rel: "graph_rel f G G'"
  shows "walk_chain_py G' (f prev) (f cur) (map f chain) (map_prod f f ` V) =
     Some (relabel_walk f r)"
proof -
  from emb have inj: "inj f" by (simp add: embeds_def)
  have "graph_rel f G G' \<longrightarrow>
      walk_chain_py G' (f prev) (f cur) (map f chain) (map_prod f f ` V) =
        Some (relabel_walk f r)"
  proof (rule walk_chain.raw_induct [where P = "\<lambda>G prev cur chain V r. graph_rel f G G' \<longrightarrow>
      walk_chain_py G' (f prev) (f cur) (map f chain) (map_prod f f ` V) =
        Some (relabel_walk f r)", OF _ run], rule impI)
    fix w :: "'a graph \<Rightarrow> 'a \<Rightarrow> 'a \<Rightarrow> 'a list \<Rightarrow> ('a \<times> 'a) set
        \<Rightarrow> (error + 'a list \<times> 'a \<times> 'a \<times> ('a \<times> 'a) set) option"
      and G prev cur chain V r
    assume IH: "\<And>G prev cur chain V r. w G prev cur chain V = Some r \<Longrightarrow>
        graph_rel f G G' \<longrightarrow>
        walk_chain_py G' (f prev) (f cur) (map f chain) (map_prod f f ` V) =
          Some (relabel_walk f r)"
      and body: "(if degree G cur = 2
          then case neighbors G cur of Inl e \<Rightarrow> Some (Inl e)
               | Inr nbrs \<Rightarrow>
                   (case filter (\<lambda>n. n \<noteq> prev) nbrs of
                      [] \<Rightarrow> Some (Inr (chain @ [cur], prev, cur,
                                    insert (sorted_pair prev cur) V))
                    | next_node # x \<Rightarrow>
                        w G cur next_node (chain @ [cur]) (insert (sorted_pair prev cur) V))
          else Some (Inr (chain, prev, cur, V))) = Some r"
      and rel: "graph_rel f G G'"
    note d = degree_rel [OF inj rel, of cur]
    show "walk_chain_py G' (f prev) (f cur) (map f chain) (map_prod f f ` V) =
        Some (relabel_walk f r)"
    proof (cases "degree G cur = 2")
      case False
      with body have "r = Inr (chain, prev, cur, V)" by simp
      with False d show ?thesis
        by (simp add: walk_chain_py_stop relabel_walk_def)
    next
      case True
      show ?thesis
      proof (cases "cur \<in> set (nodes G)")
        case False
        then have nG: "neighbors G cur = Inl NetworkXError" by (simp add: neighbors_def)
        with True body have "r = Inl NetworkXError" by simp
        with True nG d show ?thesis
          by (subst walk_chain_py.simps)
             (simp add: sorted_pair_rel [OF emb] neighbors_rel [OF inj rel] relabel_walk_def)
      next
        case node: True
        then have nG: "neighbors G cur = Inr (adj G cur)" by (simp add: neighbors_def)
        show ?thesis
        proof (cases "filter (\<lambda>n. n \<noteq> prev) (adj G cur)")
          case Nil
          with True nG body
          have "r = Inr (chain @ [cur], prev, cur, insert (sorted_pair prev cur) V)"
            by simp
          with True nG Nil d show ?thesis
            by (subst walk_chain_py.simps)
               (simp add: sorted_pair_rel [OF emb] neighbors_rel [OF inj rel]
                  filter_rel [OF emb] relabel_walk_def)
        next
          case (Cons nx rest)
          with True nG body
          have "w G cur nx (chain @ [cur]) (insert (sorted_pair prev cur) V) = Some r"
            by simp
          from IH [OF this] rel
          have "walk_chain_py G' (f cur) (f nx) (map f (chain @ [cur]))
              (map_prod f f ` insert (sorted_pair prev cur) V) = Some (relabel_walk f r)"
            by simp
          with True nG Cons d show ?thesis
            by (subst walk_chain_py.simps)
               (simp add: sorted_pair_rel [OF emb] neighbors_rel [OF inj rel]
                  filter_rel [OF emb])
        qed
      qed
    qed
  qed
  with rel show ?thesis by simp
qed


lemma sample_set_map: "sample_set (map f xs) = f ` sample_set xs"
  by (auto simp: sample_set_image image_image)

lemma sample_chain_rel: "sample_chain (map f chain) (f ` A) = f ` sample_chain chain A"
  by (simp add: sample_chain_eq sample_set_map image_Un)

lemma key_rel: "inj f \<Longrightarrow> map_prod f f e \<in> map_prod f f ` V \<longleftrightarrow> e \<in> V"
  by (metis inj_image_mem_iff prod.inj_map)

lemma visit_neighbor_refines:
  assumes emb: "embeds f" and rel: "graph_rel f G G'"
    and run: "visit_neighbor G node neighbor s = Some r"
  shows "visit_neighbor_py G' (f node) (f neighbor) (relabel_state f s) =
     Some (map_sum id (relabel_state f) r)"
proof -
  from emb have inj: "inj f" by (simp add: embeds_def)
  note d = degree_rel [OF inj rel, of neighbor]
  have V: "visited_chains (relabel_state f s) = map_prod f f ` visited_chains s"
    by (simp add: relabel_state_def)
  show ?thesis
  proof (cases "degree G neighbor = 2 \<and> sorted_pair node neighbor \<notin> visited_chains s")
    case False
    with run have "r = Inr s" by (auto simp: visit_neighbor_def)
    with False d show ?thesis
      by (auto simp: visit_neighbor_py_def sorted_pair_rel [OF emb] V key_rel [OF inj])
  next
    case True
    with run obtain w where w: "walk_chain G node neighbor [] (visited_chains s) = Some w"
      by (cases "walk_chain G node neighbor [] (visited_chains s)")
         (auto simp: visit_neighbor_def)
    from walk_refines [OF emb w rel]
    have w': "walk_chain_py G' (f node) (f neighbor) [] (map_prod f f ` visited_chains s) =
        Some (relabel_walk f w)" by simp
    show ?thesis
    proof (cases w)
      case (Inl e)
      with True w run have "r = Inl e" by (simp add: visit_neighbor_def)
      with True d w' Inl show ?thesis
        by (simp add: visit_neighbor_py_def sorted_pair_rel [OF emb] V key_rel [OF inj]
            relabel_walk_def)
    next
      case (Inr res)
      obtain chain prev cur W where res: "res = (chain, prev, cur, W)" by (cases res)
      with True w run Inr have r: "r = Inr \<lparr>visited_chains = insert (sorted_pair prev cur) W,
          additional_mh = (if chain \<noteq> [] then sample_chain chain (additional_mh s)
                           else additional_mh s),
          discovered = discovered s @ [\<lparr>origin = node, interior = chain, terminal = cur\<rparr>]\<rparr>"
        by (simp add: visit_neighbor_def)
      have a: "additional_mh (relabel_state f s) = f ` additional_mh s"
        and l: "discovered (relabel_state f s) = map (relabel_chain f) (discovered s)"
        by (simp_all add: relabel_state_def)
      from True d w' Inr res show ?thesis
        unfolding r
        by (simp add: visit_neighbor_py_def sorted_pair_rel [OF emb] V key_rel [OF inj]
            relabel_walk_def a l sample_chain_rel)
           (simp add: relabel_state_def relabel_chain_def)
    qed
  qed
qed

lemma visit_neighbors_refines:
  assumes emb: "embeds f" and rel: "graph_rel f G G'"
  shows "visit_neighbors G node nbrs s = Some r \<Longrightarrow>
     visit_neighbors_py G' (f node) (map f nbrs) (relabel_state f s) =
       Some (map_sum id (relabel_state f) r)"
proof (induction nbrs arbitrary: s)
  case Nil
  then show ?case by auto
next
  case (Cons n nbrs)
  from Cons.prems obtain r1 where r1: "visit_neighbor G node n s = Some r1"
    by (cases "visit_neighbor G node n s") auto
  note step = visit_neighbor_refines [OF emb rel r1]
  show ?case
  proof (cases r1)
    case (Inl e)
    with r1 Cons.prems step show ?thesis by auto
  next
    case (Inr s1)
    with r1 Cons.prems have "visit_neighbors G node nbrs s1 = Some r" by simp
    from Cons.IH [OF this] Inr step show ?thesis by simp
  qed
qed

lemma visit_nodes_refines:
  assumes emb: "embeds f" and rel: "graph_rel f G G'"
  shows "visit_nodes G js s = Some r \<Longrightarrow>
     visit_nodes_py G' (map f js) (relabel_state f s) = Some (map_sum id (relabel_state f) r)"
proof (induction js arbitrary: s)
  case Nil
  then show ?case by auto
next
  case (Cons j js)
  from emb have inj: "inj f" by (simp add: embeds_def)
  note nb = neighbors_rel [OF inj rel, of j]
  show ?case
  proof (cases "neighbors G j")
    case (Inl e)
    with Cons.prems nb show ?thesis by auto
  next
    case (Inr nbrs)
    with Cons.prems obtain r1 where r1: "visit_neighbors G j nbrs s = Some r1"
      by (cases "visit_neighbors G j nbrs s") auto
    note step = visit_neighbors_refines [OF emb rel r1]
    show ?thesis
    proof (cases r1)
      case (Inl e)
      with r1 Cons.prems \<open>neighbors G j = Inr nbrs\<close> nb step show ?thesis by auto
    next
      case s1: (Inr s1)
      with r1 Cons.prems Inr have "visit_nodes G js s1 = Some r" by simp
      from Cons.IH [OF this] s1 Inr nb step show ?thesis by simp
    qed
  qed
qed


lemma chain_pass_refines:
  assumes emb: "embeds f" and run: "chain_pass order (from_pandas_edgelist df) = Some r"
  shows "chain_pass_py (map f order) (from_pandas_edgelist (map (relabel f) df)) =
     Some (map_sum id (relabel_state f) r)"
proof -
  from emb have inj: "inj f" by (simp add: embeds_def)
  have i: "relabel_state f initial_state = initial_state"
    by (simp add: relabel_state_def initial_state_def)
  from visit_nodes_refines [OF emb graph_rel_build [OF inj], of df order initial_state r] run
  show ?thesis by (simp add: chain_pass_def chain_pass_py_def i)
qed







subsection \<open>The log of discovered chains has no influence on the two sets\<close>

lemma visit_neighbor_log:
  "same_sets s t \<Longrightarrow>
   rel_option (rel_sum (=) same_sets) (visit_neighbor G node neighbor s)
     (visit_neighbor G node neighbor t)"
  by (auto simp: visit_neighbor_def same_sets_def split: option.splits sum.splits)

lemma visit_neighbors_log:
  "same_sets s t \<Longrightarrow>
   rel_option (rel_sum (=) same_sets) (visit_neighbors G node nbrs s)
     (visit_neighbors G node nbrs t)"
proof (induction nbrs arbitrary: s t)
  case Nil
  then show ?case by simp
next
  case (Cons n nbrs)
  from visit_neighbor_log [OF Cons.prems, of G node n] show ?case
    by (cases "visit_neighbor G node n s"; cases "visit_neighbor G node n t")
       (auto elim!: rel_sum.cases intro: Cons.IH)
qed

lemma visit_nodes_log:
  "same_sets s t \<Longrightarrow>
   rel_option (rel_sum (=) same_sets) (visit_nodes G order s) (visit_nodes G order t)"
proof (induction order arbitrary: s t)
  case Nil
  then show ?case by simp
next
  case (Cons n order)
  from visit_neighbors_log [OF Cons.prems, of G n "adj G n"] show ?case
    by (cases "visit_neighbors G n (adj G n) s"; cases "visit_neighbors G n (adj G n) t")
       (auto simp: neighbors_def elim!: rel_sum.cases intro: Cons.IH)
qed

end
